theory Spec2Isabelle
  imports Main "HOL-Library.Word"
begin

section \<open>The Lys device library (lys.h, lys.c)\<close>

text \<open>
  Lys frames typed parameters over a byte transport (SEGGER RTT). This theory embeds
  the device library \<^verbatim>\<open>lys.c\<close>: the type table, the codec working on the static
  scratch buffer \<^verbatim>\<open>m_buf\<close>, the blocking send and receive loops, and the session
  engine with its state and sticky error flag.

  Conventions of the embedding.
  \<^item> \<^verbatim>\<open>uint8_t\<close> is \<open>8 word\<close>, \<^verbatim>\<open>uint32_t\<close> and \<^verbatim>\<open>unsigned long\<close> (the target is a
    32-bit Cortex-M) are \<open>32 word\<close>; the enumerations \<^verbatim>\<open>lys_op_t\<close> and
    \<^verbatim>\<open>lys_param_type_t\<close> travel through bytes of the buffer and through
    \<^verbatim>\<open>switch\<close> statements with a \<^verbatim>\<open>default\<close> branch, so they are \<open>32 word\<close> with
    named ordinals; the two enumerations that never leave the library are datatypes.
  \<^item> A function returning \<^verbatim>\<open>lys_error_t\<close> and mutating the statics returns the error
    code together with the new state.
  \<^item> What C leaves undefined (a division by zero, a \<^verbatim>\<open>memcpy\<close> leaving its source or
    destination object, a pointer used at the wrong type or null where the code does
    not test it) and a loop that never ends are values of type \<open>fault\<close>, on the left
    of a sum.
\<close>

type_synonym u8 = "8 word"
type_synonym u32 = "32 word"

datatype fault = DivisionByZero | OutOfBounds | BadPointer | Blocked

subsection \<open>lys.h\<close>

abbreviation LYS_MAX_STR_LEN :: u32 where "LYS_MAX_STR_LEN \<equiv> 64"
abbreviation LYS_MAX_ARRAY_LEN :: u32 where "LYS_MAX_ARRAY_LEN \<equiv> 64"
abbreviation LYS_MAX_MSG_LEN :: u32 where "LYS_MAX_MSG_LEN \<equiv> 64"
abbreviation LYS_PARAM_VARIABLE_SIZE :: u32 where "LYS_PARAM_VARIABLE_SIZE \<equiv> 0"

datatype lys_error_t = LYS_ERROR_SUCCESS | LYS_ERROR_INVALID_STATE | LYS_ERROR_INVALID_PARAM

datatype lys_state_t =
  LYS_STATE_UNKNOWN | LYS_STATE_WAIT_FOR_START | LYS_STATE_RUNNING | LYS_STATE_RESULT
  | LYS_STATE_FINISHED

type_synonym lys_op_t = u32

abbreviation LYS_OP_UNKNOWN :: lys_op_t where "LYS_OP_UNKNOWN \<equiv> 0"
abbreviation LYS_OP_INIT :: lys_op_t where "LYS_OP_INIT \<equiv> 1"
abbreviation LYS_OP_START :: lys_op_t where "LYS_OP_START \<equiv> 2"
abbreviation LYS_OP_RESULT :: lys_op_t where "LYS_OP_RESULT \<equiv> 3"
abbreviation LYS_OP_FINISHED :: lys_op_t where "LYS_OP_FINISHED \<equiv> 4"
abbreviation LYS_OP_PARAM :: lys_op_t where "LYS_OP_PARAM \<equiv> 5"
abbreviation LYS_OP_ACK :: lys_op_t where "LYS_OP_ACK \<equiv> 6"
abbreviation LYS_OP_LOG :: lys_op_t where "LYS_OP_LOG \<equiv> 7"

type_synonym lys_param_type_t = u32

abbreviation LYS_PARAM_TYPE_UINT32 :: lys_param_type_t where "LYS_PARAM_TYPE_UINT32 \<equiv> 0"
abbreviation LYS_PARAM_TYPE_INT32 :: lys_param_type_t where "LYS_PARAM_TYPE_INT32 \<equiv> 1"
abbreviation LYS_PARAM_TYPE_UINT8 :: lys_param_type_t where "LYS_PARAM_TYPE_UINT8 \<equiv> 2"
abbreviation LYS_PARAM_TYPE_INT8 :: lys_param_type_t where "LYS_PARAM_TYPE_INT8 \<equiv> 3"
abbreviation LYS_PARAM_TYPE_BOOL :: lys_param_type_t where "LYS_PARAM_TYPE_BOOL \<equiv> 4"
abbreviation LYS_PARAM_TYPE_STRING :: lys_param_type_t where "LYS_PARAM_TYPE_STRING \<equiv> 5"
abbreviation LYS_PARAM_TYPE_ARRAY :: lys_param_type_t where "LYS_PARAM_TYPE_ARRAY \<equiv> 6"

text \<open>
  \<^verbatim>\<open>lys_str_t\<close>: \<open>p_data\<close> holds the bytes of the object the pointer points into, from
  the pointer on; \<open>len\<close> is the separate length field, which need not agree with it.
\<close>

record lys_str_t =
  len :: u32
  p_data :: "u8 list"

text \<open>
  \<^verbatim>\<open>lys_array_t\<close>; the fields are \<^verbatim>\<open>param_type\<close>, \<^verbatim>\<open>item_count\<close> and \<^verbatim>\<open>data\<close> in the
  source (prefixed here, \<^verbatim>\<open>lys_param_t\<close> has fields of the same names).
\<close>

record lys_array_t =
  a_param_type :: lys_param_type_t
  a_item_count :: u32
  a_data :: "u8 list"

text \<open>
  The union of pointers \<^verbatim>\<open>data\<close> of \<^verbatim>\<open>lys_param_t\<close>: one address, read at the type the
  tag asks for. The constructor records what the address really holds: nothing,
  plain bytes (any of the scalar members), a \<^verbatim>\<open>lys_str_t\<close> or a \<^verbatim>\<open>lys_array_t\<close>.
\<close>

datatype lys_ptr = NULL | P_uint8 "u8 list" | P_str lys_str_t | P_array lys_array_t

record lys_param_t =
  param_type :: lys_param_type_t
  data :: lys_ptr

subsection \<open>The statics of lys.c and the transport\<close>

text \<open>
  The statics \<^verbatim>\<open>m_buf\<close> (an array of \<^verbatim>\<open>LYS_MAX_MSG_LEN\<close> bytes), \<^verbatim>\<open>m_buf_index\<close>,
  \<^verbatim>\<open>m_state\<close>, \<^verbatim>\<open>m_error\<close>, \<^verbatim>\<open>m_str\<close>, \<^verbatim>\<open>m_array\<close>, \<^verbatim>\<open>m_param\<close>, and the RTT channel
  the library talks to, which is not part of the repository:
  \<^item> \<open>rtt_up\<close>: the bytes the channel has accepted from the device so far;
  \<^item> \<open>rtt_accept\<close>: how many bytes each coming call of \<^verbatim>\<open>SEGGER_RTT_Write\<close> accepts at
    most (a call may accept fewer bytes than offered, also none);
  \<^item> \<open>rtt_down\<close>: what each coming call of \<^verbatim>\<open>SEGGER_RTT_Read\<close> finds in the down buffer
    (possibly nothing).
  When a schedule is used up the host has gone silent: every further call moves no
  byte, and a loop waiting for bytes never ends.
\<close>

record lys =
  m_buf :: "u8 list"
  m_buf_index :: u8
  m_state :: lys_state_t
  m_error :: bool
  m_str :: lys_str_t
  m_array :: lys_array_t
  m_param :: lys_param_t
  rtt_up :: "u8 list"
  rtt_accept :: "nat list"
  rtt_down :: "u8 list list"

abbreviation m_ack_buf :: "u8 list" where "m_ack_buf \<equiv> [2, 6]"

subsection \<open>Type table\<close>

definition lys_param_len_lookup :: "lys_param_type_t \<Rightarrow> lys_error_t + u32" where
  "lys_param_len_lookup t =
     (if t = LYS_PARAM_TYPE_UINT32 then Inr 4
      else if t = LYS_PARAM_TYPE_INT32 then Inr 4
      else if t = LYS_PARAM_TYPE_UINT8 then Inr 1
      else if t = LYS_PARAM_TYPE_INT8 then Inr 1
      else if t = LYS_PARAM_TYPE_BOOL then Inr 1
      else if t = LYS_PARAM_TYPE_STRING \<or> t = LYS_PARAM_TYPE_ARRAY
        then Inr LYS_PARAM_VARIABLE_SIZE
      else Inl LYS_ERROR_INVALID_PARAM)"

subsection \<open>Encoding\<close>

definition verify_array_len :: "lys_array_t option \<Rightarrow> lys_error_t + u32" where
  "verify_array_len p_array =
     (case p_array of
        None \<Rightarrow> Inl LYS_ERROR_INVALID_PARAM
      | Some a \<Rightarrow>
          if a_item_count a = 0 then Inl LYS_ERROR_INVALID_PARAM
          else
            (case lys_param_len_lookup (a_param_type a) of
               Inl err \<Rightarrow> Inl err
             | Inr item_len \<Rightarrow>
                 if item_len = LYS_PARAM_VARIABLE_SIZE then Inl LYS_ERROR_INVALID_PARAM
                 else
                   let data_len = item_len * a_item_count a in
                   if LYS_MAX_MSG_LEN < 4 + data_len then Inl LYS_ERROR_INVALID_PARAM
                   else Inr data_len))"

definition verify_str_len :: "lys_str_t option \<Rightarrow> lys_error_t + u32" where
  "verify_str_len p_str =
     (case p_str of
        None \<Rightarrow> Inl LYS_ERROR_INVALID_PARAM
      | Some str \<Rightarrow>
          if len str = 0 then Inl LYS_ERROR_INVALID_PARAM
          else if LYS_MAX_MSG_LEN < 3 + len str then Inl LYS_ERROR_INVALID_PARAM
          else Inr (len str))"

text \<open>\<^verbatim>\<open>m_buf[m_buf_index++] = b\<close>\<close>

definition buf_push :: "u8 \<Rightarrow> lys \<Rightarrow> lys" where
  "buf_push b s =
     s\<lparr>m_buf := (m_buf s)[unat (m_buf_index s) := b], m_buf_index := m_buf_index s + 1\<rparr>"

text \<open>
  The last three statements of \<^verbatim>\<open>param_add\<close>: the tag byte, the \<^verbatim>\<open>memcpy\<close> of
  \<open>param_len\<close> bytes from \<open>p_param_data\<close> to \<^verbatim>\<open>&m_buf[m_buf_index]\<close>, and the index
  moved on (\<^verbatim>\<open>m_buf_index\<close> is a byte, \<open>param_len\<close> is not).
\<close>

definition param_emit :: "lys_param_type_t \<Rightarrow> u8 list \<Rightarrow> u32 \<Rightarrow> lys \<Rightarrow> fault + (lys_error_t \<times> lys)" where
  "param_emit t p_param_data param_len s =
     (let s1 = buf_push (ucast t) s;
          i = unat (m_buf_index s1);
          n = unat param_len in
      if length (m_buf s1) < i + n \<or> length p_param_data < n then Inl OutOfBounds
      else Inr (LYS_ERROR_SUCCESS,
        s1\<lparr>m_buf := take i (m_buf s1) @ take n p_param_data @ drop (i + n) (m_buf s1),
           m_buf_index := m_buf_index s1 + ucast param_len\<rparr>))"

definition param_add :: "lys_param_t option \<Rightarrow> lys \<Rightarrow> fault + (lys_error_t \<times> lys)" where
  "param_add p_param s =
     (case p_param of
        None \<Rightarrow> Inr (LYS_ERROR_INVALID_PARAM, s)
      | Some p \<Rightarrow>
          (case lys_param_len_lookup (param_type p) of
             Inl err \<Rightarrow> Inr (err, s)
           | Inr param_len \<Rightarrow>
               if param_len = LYS_PARAM_VARIABLE_SIZE then
                 if param_type p = LYS_PARAM_TYPE_ARRAY then
                   (case data p of
                      P_uint8 bs \<Rightarrow> Inl BadPointer
                    | P_str str \<Rightarrow> Inl BadPointer
                    | NULL \<Rightarrow>
                        (case verify_array_len None of
                           Inl err \<Rightarrow> Inr (err, s)
                         | Inr data_len \<Rightarrow> Inl BadPointer)
                    | P_array a \<Rightarrow>
                        (case verify_array_len (Some a) of
                           Inl err \<Rightarrow> Inr (err, s)
                         | Inr data_len \<Rightarrow>
                             param_emit (a_param_type a) (a_data a) data_len
                               (buf_push (ucast LYS_PARAM_TYPE_ARRAY) s)))
                 else if param_type p = LYS_PARAM_TYPE_STRING then
                   (case data p of
                      P_uint8 bs \<Rightarrow> Inl BadPointer
                    | P_array a \<Rightarrow> Inl BadPointer
                    | NULL \<Rightarrow>
                        (case verify_str_len None of
                           Inl err \<Rightarrow> Inr (err, s)
                         | Inr data_len \<Rightarrow> Inl BadPointer)
                    | P_str str \<Rightarrow>
                        (case verify_str_len (Some str) of
                           Inl err \<Rightarrow> Inr (err, s)
                         | Inr data_len \<Rightarrow>
                             param_emit (param_type p) (p_data str) data_len s))
                 else Inr (LYS_ERROR_INVALID_PARAM, s)
               else if LYS_MAX_MSG_LEN < 3 + param_len then Inr (LYS_ERROR_INVALID_PARAM, s)
               else
                 (case data p of
                    P_uint8 bs \<Rightarrow> param_emit (param_type p) bs param_len s
                  | NULL \<Rightarrow> Inl BadPointer
                  | P_str str \<Rightarrow> Inl BadPointer
                  | P_array a \<Rightarrow> Inl BadPointer)))"

definition msg_create :: "lys_op_t \<Rightarrow> lys_param_t option \<Rightarrow> lys \<Rightarrow> fault + (lys_error_t \<times> lys)" where
  "msg_create op p_param s =
     (let s1 = buf_push (ucast op) (s\<lparr>m_buf_index := 1\<rparr>) in
      if op = LYS_OP_UNKNOWN \<or> op = LYS_OP_INIT \<or> op = LYS_OP_START \<or> op = LYS_OP_RESULT
         \<or> op = LYS_OP_FINISHED \<or> op = LYS_OP_ACK
      then Inr (LYS_ERROR_SUCCESS, s1\<lparr>m_buf := (m_buf s1)[0 := m_buf_index s1]\<rparr>)
      else if op = LYS_OP_PARAM \<or> op = LYS_OP_LOG then
        (case param_add p_param s1 of
           Inl f \<Rightarrow> Inl f
         | Inr (err, s2) \<Rightarrow>
             if err \<noteq> LYS_ERROR_SUCCESS then Inr (err, s2)
             else Inr (LYS_ERROR_SUCCESS, s2\<lparr>m_buf := (m_buf s2)[0 := m_buf_index s2]\<rparr>))
      else Inr (LYS_ERROR_INVALID_PARAM, s1))"

subsection \<open>Decoding\<close>

text \<open>
  \<^verbatim>\<open>param_parse\<close>. The views it builds point into \<^verbatim>\<open>m_buf\<close>: \<^verbatim>\<open>&m_buf[3]\<close> is the
  buffer from offset 3 on, \<^verbatim>\<open>&m_buf[4]\<close> from offset 4 on. The lengths are computed in
  \<^verbatim>\<open>unsigned long\<close>: \<^verbatim>\<open>m_buf[0] - 3UL\<close> wraps around below 3. The array branch divides by
  the looked-up size without testing it.
\<close>

definition param_parse :: "lys \<Rightarrow> fault + (lys_error_t \<times> lys)" where
  "param_parse s =
     (if m_buf s ! 2 = ucast LYS_PARAM_TYPE_ARRAY then
        let arr = (m_array s)\<lparr>a_param_type := ucast (m_buf s ! 3)\<rparr>;
            s1 = s\<lparr>m_param := \<lparr>param_type = LYS_PARAM_TYPE_ARRAY, data = P_array arr\<rparr>,
                   m_array := arr\<rparr>;
            data_len = ucast (m_buf s ! 0) - (4 :: u32) in
        (case lys_param_len_lookup (a_param_type arr) of
           Inl err \<Rightarrow> Inr (err, s1)
         | Inr param_len \<Rightarrow>
             if param_len = 0 then Inl DivisionByZero
             else if data_len mod param_len \<noteq> 0 then Inr (LYS_ERROR_INVALID_PARAM, s1)
             else
               let arr' = arr\<lparr>a_item_count := data_len div param_len,
                              a_data := drop 4 (m_buf s)\<rparr> in
               Inr (LYS_ERROR_SUCCESS,
                 s1\<lparr>m_param := \<lparr>param_type = LYS_PARAM_TYPE_ARRAY, data = P_array arr'\<rparr>,
                    m_array := arr'\<rparr>))
      else
        let data_len = ucast (m_buf s ! 0) - (3 :: u32) in
        if m_buf s ! 2 = ucast LYS_PARAM_TYPE_STRING then
          let str = \<lparr>len = data_len, p_data = drop 3 (m_buf s)\<rparr> in
          Inr (LYS_ERROR_SUCCESS,
            s\<lparr>m_param := \<lparr>param_type = LYS_PARAM_TYPE_STRING, data = P_str str\<rparr>,
              m_str := str\<rparr>)
        else
          let s1 = s\<lparr>m_param := \<lparr>param_type = ucast (m_buf s ! 2),
                                  data = P_uint8 (drop 3 (m_buf s))\<rparr>\<rparr> in
          (case lys_param_len_lookup (ucast (m_buf s ! 2)) of
             Inl err \<Rightarrow> Inr (err, s1)
           | Inr param_len \<Rightarrow>
               if param_len \<noteq> data_len then Inr (LYS_ERROR_INVALID_PARAM, s1)
               else Inr (LYS_ERROR_SUCCESS, s1)))"

text \<open>
  \<^verbatim>\<open>msg_parse\<close> hands back the op (\<^verbatim>\<open>*p_op\<close>, written on every path) and the parameter
  (\<^verbatim>\<open>*p_param\<close>: null, or \<^verbatim>\<open>&m_param\<close>, here the value of \<^verbatim>\<open>m_param\<close> at the return).
\<close>

definition msg_parse :: "lys \<Rightarrow> fault + (lys_error_t \<times> lys_op_t \<times> lys_param_t option \<times> lys)" where
  "msg_parse s =
     (let op = ucast (m_buf s ! 1) :: lys_op_t in
      if op = LYS_OP_UNKNOWN \<or> op = LYS_OP_INIT \<or> op = LYS_OP_START \<or> op = LYS_OP_RESULT
         \<or> op = LYS_OP_FINISHED \<or> op = LYS_OP_ACK
      then Inr (LYS_ERROR_SUCCESS, op, None, s)
      else if op = LYS_OP_PARAM \<or> op = LYS_OP_LOG then
        (case param_parse s of
           Inl f \<Rightarrow> Inl f
         | Inr (err, s1) \<Rightarrow>
             if err \<noteq> LYS_ERROR_SUCCESS then Inr (err, op, None, s1)
             else Inr (LYS_ERROR_SUCCESS, op, Some (m_param s1), s1))
      else Inr (LYS_ERROR_INVALID_PARAM, op, None, s))"

text \<open>Returns true if \<^verbatim>\<open>m_buf\<close> contains a complete lys message.\<close>

definition msg_complete :: "lys \<Rightarrow> bool" where
  "msg_complete s =
     (if m_buf_index s \<le> 0 \<or> m_buf s ! 0 > m_buf_index s then False else True)"

text \<open>The bytes of \<^verbatim>\<open>m_buf\<close> below \<^verbatim>\<open>m_buf_index\<close>: the frame \<^verbatim>\<open>msg_send\<close> transmits.\<close>

definition frame :: "lys \<Rightarrow> u8 list" where
  "frame s = take (unat (m_buf_index s)) (m_buf s)"

subsection \<open>Transport loops\<close>

text \<open>
  The loop of \<^verbatim>\<open>msg_send\<close> (over \<^verbatim>\<open>m_buf\<close>, up to \<^verbatim>\<open>m_buf_index\<close>) and of
  \<^verbatim>\<open>ack_msg_send\<close> (over \<^verbatim>\<open>m_ack_buf\<close>, up to \<^verbatim>\<open>LYS_MSG_NO_PARAM_LEN\<close>): the two differ
  in the buffer and the bound only. Each round offers the bytes not yet written to
  \<^verbatim>\<open>SEGGER_RTT_Write\<close> and adds what it accepted to \<open>bytes_written\<close>.
\<close>

function send_loop :: "u8 list \<Rightarrow> nat \<Rightarrow> nat \<Rightarrow> lys \<Rightarrow> fault + lys" where
  "send_loop buf bound bytes_written s =
     (if bytes_written < bound then
        (case rtt_accept s of
           [] \<Rightarrow> Inl Blocked
         | a # as \<Rightarrow>
             let n = min a (bound - bytes_written) in
             send_loop buf bound (bytes_written + n)
               (s\<lparr>rtt_up := rtt_up s @ take n (drop bytes_written buf), rtt_accept := as\<rparr>))
      else Inr s)"
  by pat_completeness auto
termination
  by (relation "measure (\<lambda>(buf, bound, bytes_written, s). length (rtt_accept s))") auto

declare send_loop.simps [simp del]

definition msg_send :: "lys \<Rightarrow> fault + lys" where
  "msg_send s = send_loop (m_buf s) (unat (m_buf_index s)) 0 s"

definition ack_msg_send :: "lys \<Rightarrow> fault + lys" where
  "ack_msg_send s = send_loop m_ack_buf 2 0 s"

text \<open>
  The loop of \<^verbatim>\<open>msg_receive\<close>. Each round asks \<^verbatim>\<open>SEGGER_RTT_Read\<close> for at most
  \<^verbatim>\<open>LYS_MAX_MSG_LEN - m_buf_index\<close> bytes at \<^verbatim>\<open>&m_buf[m_buf_index]\<close>; bytes of the down
  buffer beyond that stay there for the next call. With a full buffer that is not a
  complete message (a length byte above 64) the call asks for no byte, gets none and
  the loop spins for ever.
\<close>

function msg_receive_loop :: "lys \<Rightarrow> fault + lys" where
  "msg_receive_loop s =
     (if msg_complete s then Inr s
      else
        let cap = unat (LYS_MAX_MSG_LEN - ucast (m_buf_index s));
            i = unat (m_buf_index s) in
        if cap = 0 then Inl Blocked
        else
          (case rtt_down s of
             [] \<Rightarrow> Inl Blocked
           | c # cs \<Rightarrow>
               let got = take cap c;
                   rest = (if length c \<le> cap then cs else drop cap c # cs) in
               if length (m_buf s) < i + length got then Inl OutOfBounds
               else
                 msg_receive_loop
                   (s\<lparr>m_buf := take i (m_buf s) @ got @ drop (i + length got) (m_buf s),
                      m_buf_index := m_buf_index s + of_nat (length got),
                      rtt_down := rest\<rparr>)))"
  by pat_completeness auto
termination
  by (relation "measure (\<lambda>s. sum_list (map (\<lambda>c. Suc (length c)) (rtt_down s)))") auto

declare msg_receive_loop.simps [simp del]

definition msg_receive :: "lys \<Rightarrow> fault + (lys_error_t \<times> lys_op_t \<times> lys_param_t option \<times> lys)" where
  "msg_receive s =
     (case msg_receive_loop (s\<lparr>m_buf_index := 0\<rparr>) of
        Inl f \<Rightarrow> Inl f
      | Inr s1 \<Rightarrow> msg_parse s1)"

subsection \<open>Handshake\<close>

definition wait_for_ack :: "lys \<Rightarrow> fault + (lys_error_t \<times> lys)" where
  "wait_for_ack s =
     (case msg_receive s of
        Inl f \<Rightarrow> Inl f
      | Inr (err, op, p_param, s1) \<Rightarrow>
          if err \<noteq> LYS_ERROR_SUCCESS then Inr (err, s1)
          else if op \<noteq> LYS_OP_ACK then Inr (LYS_ERROR_INVALID_STATE, s1)
          else Inr (LYS_ERROR_SUCCESS, s1))"

definition msg_send_and_ack :: "lys_op_t \<Rightarrow> lys_param_t option \<Rightarrow> lys \<Rightarrow> fault + (lys_error_t \<times> lys)" where
  "msg_send_and_ack op p_param s =
     (case msg_create op p_param s of
        Inl f \<Rightarrow> Inl f
      | Inr (err, s1) \<Rightarrow>
          if err \<noteq> LYS_ERROR_SUCCESS then Inr (err, s1)
          else
            (case msg_send s1 of
               Inl f \<Rightarrow> Inl f
             | Inr s2 \<Rightarrow> wait_for_ack s2))"

definition msg_receive_and_ack :: "lys \<Rightarrow> fault + (lys_error_t \<times> lys_op_t \<times> lys_param_t option \<times> lys)" where
  "msg_receive_and_ack s =
     (case msg_receive s of
        Inl f \<Rightarrow> Inl f
      | Inr (err, op, p_param, s1) \<Rightarrow>
          if err \<noteq> LYS_ERROR_SUCCESS then Inr (err, op, p_param, s1)
          else
            (case ack_msg_send s1 of
               Inl f \<Rightarrow> Inl f
             | Inr s2 \<Rightarrow> Inr (LYS_ERROR_SUCCESS, op, p_param, s2)))"

definition error :: "lys \<Rightarrow> lys" where
  "error s = s\<lparr>m_error := True, m_state := LYS_STATE_UNKNOWN\<rparr>"

subsection \<open>Copy-in routines\<close>

text \<open>\<^verbatim>\<open>memcpy(dst, src, n)\<close> on two objects given by their bytes.\<close>

definition memcpy :: "u8 list \<Rightarrow> u8 list \<Rightarrow> nat \<Rightarrow> fault + u8 list" where
  "memcpy dst src n =
     (if length dst < n \<or> length src < n then Inl OutOfBounds
      else Inr (take n src @ drop n dst))"

definition str_copy :: "lys_str_t \<Rightarrow> lys_str_t \<Rightarrow> fault + (lys_error_t \<times> lys_str_t)" where
  "str_copy lhs rhs =
     (if len rhs > LYS_MAX_STR_LEN \<or> len rhs = 0 then Inr (LYS_ERROR_INVALID_PARAM, lhs)
      else
        (case memcpy (p_data lhs) (p_data rhs) (unat (len rhs)) of
           Inl f \<Rightarrow> Inl f
         | Inr bs \<Rightarrow> Inr (LYS_ERROR_SUCCESS, \<lparr>len = len rhs, p_data = bs\<rparr>)))"

definition array_copy :: "lys_array_t \<Rightarrow> lys_array_t \<Rightarrow> fault + (lys_error_t \<times> lys_array_t)" where
  "array_copy lhs rhs =
     (let item_type = a_param_type rhs in
      case lys_param_len_lookup item_type of
        Inl err \<Rightarrow> Inr (err, lhs)
      | Inr item_len \<Rightarrow>
          if item_len = LYS_PARAM_VARIABLE_SIZE \<or> item_len = 0
          then Inr (LYS_ERROR_INVALID_PARAM, lhs)
          else
            let data_len = item_len * a_item_count rhs in
            if data_len > LYS_MAX_ARRAY_LEN then Inr (LYS_ERROR_INVALID_PARAM, lhs)
            else
              (case memcpy (a_data lhs) (a_data rhs) (unat data_len) of
                 Inl f \<Rightarrow> Inl f
               | Inr bs \<Rightarrow>
                   Inr (LYS_ERROR_SUCCESS,
                     \<lparr>a_param_type = item_type, a_item_count = a_item_count rhs,
                      a_data = bs\<rparr>)))"

subsection \<open>Public operations\<close>

definition lys_init :: "lys \<Rightarrow> lys" where
  "lys_init s = s\<lparr>m_buf_index := 0, m_state := LYS_STATE_UNKNOWN, m_error := False\<rparr>"

definition lys_state_get :: "lys \<Rightarrow> lys_state_t" where
  "lys_state_get s = m_state s"

definition lys_has_error :: "lys \<Rightarrow> bool" where
  "lys_has_error s = m_error s"

text \<open>
  \<^verbatim>\<open>lys_param_wait\<close>; \<open>init_begin\<close> is its first \<^verbatim>\<open>if\<close> block (in \<^verbatim>\<open>LYS_STATE_UNKNOWN\<close>
  without error, send \<^verbatim>\<open>LYS_OP_INIT\<close> and move to \<^verbatim>\<open>LYS_STATE_WAIT_FOR_START\<close>).
  The result carries the two out-parameters \<^verbatim>\<open>*p_param\<close> and
  \<^verbatim>\<open>*p_param_set\<close>; on the paths that leave one unwritten the model reports \<open>None\<close> and
  \<open>False\<close> (the callers read them after \<^verbatim>\<open>LYS_ERROR_SUCCESS\<close> only, when both have been
  written).
\<close>

definition init_begin :: "lys \<Rightarrow> fault + (lys_error_t \<times> lys)" where
  "init_begin s =
     (if m_state s = LYS_STATE_UNKNOWN \<and> \<not> m_error s then
        (case msg_send_and_ack LYS_OP_INIT None s of
           Inl f \<Rightarrow> Inl f
         | Inr (err, s1) \<Rightarrow>
             if err \<noteq> LYS_ERROR_SUCCESS then Inr (err, error s1)
             else Inr (LYS_ERROR_SUCCESS, s1\<lparr>m_state := LYS_STATE_WAIT_FOR_START\<rparr>))
      else Inr (LYS_ERROR_SUCCESS, s))"

definition lys_param_wait :: "lys \<Rightarrow> fault + (lys_error_t \<times> lys_param_t option \<times> bool \<times> lys)" where
  "lys_param_wait s =
     (case init_begin s of
        Inl f \<Rightarrow> Inl f
      | Inr (err, s1) \<Rightarrow>
          if err \<noteq> LYS_ERROR_SUCCESS then Inr (err, None, False, s1)
          else if m_state s1 \<noteq> LYS_STATE_WAIT_FOR_START
            then Inr (LYS_ERROR_INVALID_STATE, None, False, s1)
          else
            (case msg_receive_and_ack s1 of
               Inl f \<Rightarrow> Inl f
             | Inr (err, op, p_param, s2) \<Rightarrow>
                 if err \<noteq> LYS_ERROR_SUCCESS then Inr (err, p_param, False, error s2)
                 else if op = LYS_OP_START
                   then Inr (LYS_ERROR_SUCCESS, p_param, False, s2\<lparr>m_state := LYS_STATE_RUNNING\<rparr>)
                 else if op = LYS_OP_PARAM then Inr (LYS_ERROR_SUCCESS, p_param, True, s2)
                 else Inr (LYS_ERROR_INVALID_STATE, p_param, False, error s2)))"

text \<open>
  The \<^verbatim>\<open>switch (expected_type)\<close> of \<^verbatim>\<open>lys_params_receive\<close>: the received value \<open>r\<close> is
  copied to the storage the expected entry \<open>p\<close> points to; the entry comes back with
  its storage updated.
\<close>

definition param_store :: "lys_param_t \<Rightarrow> lys_param_t \<Rightarrow> fault + (lys_error_t \<times> lys_param_t)" where
  "param_store p r =
     (let expected_type = param_type p in
      if expected_type = LYS_PARAM_TYPE_UINT32 \<or> expected_type = LYS_PARAM_TYPE_INT32
         \<or> expected_type = LYS_PARAM_TYPE_UINT8 \<or> expected_type = LYS_PARAM_TYPE_INT8
         \<or> expected_type = LYS_PARAM_TYPE_BOOL
      then
        (case lys_param_len_lookup expected_type of
           Inl err \<Rightarrow> Inr (err, p)
         | Inr param_len \<Rightarrow>
             if param_len = LYS_PARAM_VARIABLE_SIZE then Inr (LYS_ERROR_INVALID_PARAM, p)
             else
               (case (data p, data r) of
                  (P_uint8 dst, P_uint8 src) \<Rightarrow>
                    (case memcpy dst src (unat param_len) of
                       Inl f \<Rightarrow> Inl f
                     | Inr bs \<Rightarrow> Inr (LYS_ERROR_SUCCESS, p\<lparr>data := P_uint8 bs\<rparr>))
                | _ \<Rightarrow> Inl BadPointer))
      else if expected_type = LYS_PARAM_TYPE_STRING then
        (case (data p, data r) of
           (P_str lhs, P_str rhs) \<Rightarrow>
             (case str_copy lhs rhs of
                Inl f \<Rightarrow> Inl f
              | Inr (err, lhs') \<Rightarrow> Inr (err, p\<lparr>data := P_str lhs'\<rparr>))
         | _ \<Rightarrow> Inl BadPointer)
      else if expected_type = LYS_PARAM_TYPE_ARRAY then
        (case (data p, data r) of
           (P_array lhs, P_array rhs) \<Rightarrow>
             (case array_copy lhs rhs of
                Inl f \<Rightarrow> Inl f
              | Inr (err, lhs') \<Rightarrow> Inr (err, p\<lparr>data := P_array lhs'\<rparr>))
         | _ \<Rightarrow> Inl BadPointer)
      else Inr (LYS_ERROR_INVALID_PARAM, p))"

text \<open>
  \<^verbatim>\<open>lys_params_receive\<close>: the array \<^verbatim>\<open>p_params\<close> of \<^verbatim>\<open>param_count\<close> entries is a list, the
  \<^verbatim>\<open>for\<close> loop the recursion on it; the list comes back with the storage written so
  far.
\<close>

fun lys_params_receive :: "lys_param_t list \<Rightarrow> lys \<Rightarrow> fault + (lys_error_t \<times> lys_param_t list \<times> lys)" where
  "lys_params_receive [] s =
     (case lys_param_wait s of
        Inl f \<Rightarrow> Inl f
      | Inr (err, p_received_param, param_set, s1) \<Rightarrow>
          if err \<noteq> LYS_ERROR_SUCCESS then Inr (err, [], s1)
          else if param_set then Inr (LYS_ERROR_INVALID_STATE, [], error s1)
          else Inr (LYS_ERROR_SUCCESS, [], s1))"
| "lys_params_receive (p # ps) s =
     (case lys_param_wait s of
        Inl f \<Rightarrow> Inl f
      | Inr (err, p_received_param, param_set, s1) \<Rightarrow>
          if err \<noteq> LYS_ERROR_SUCCESS then Inr (err, p # ps, s1)
          else if \<not> param_set then Inr (LYS_ERROR_INVALID_PARAM, p # ps, s1)
          else
            (case p_received_param of
               None \<Rightarrow> Inl BadPointer
             | Some r \<Rightarrow>
                 if param_type p \<noteq> param_type r then Inr (LYS_ERROR_INVALID_PARAM, p # ps, s1)
                 else
                   (case param_store p r of
                      Inl f \<Rightarrow> Inl f
                    | Inr (err, p') \<Rightarrow>
                        if err \<noteq> LYS_ERROR_SUCCESS then Inr (err, p' # ps, s1)
                        else
                          (case lys_params_receive ps s1 of
                             Inl f \<Rightarrow> Inl f
                           | Inr (err, ps', s2) \<Rightarrow> Inr (err, p' # ps', s2)))))"

text \<open>
  The \<^verbatim>\<open>for\<close> loop of \<^verbatim>\<open>lys_params_receive\<close> on its own, run over the entries of a list:
  the rounds of the loop without the wait for \<^verbatim>\<open>LYS_OP_START\<close> that follows it. It
  returns as the loop is left: with the error of the round that failed, or with
  \<^verbatim>\<open>LYS_ERROR_SUCCESS\<close> when it ran through.
\<close>

fun params_loop :: "lys_param_t list \<Rightarrow> lys \<Rightarrow> fault + (lys_error_t \<times> lys_param_t list \<times> lys)" where
  "params_loop [] s = Inr (LYS_ERROR_SUCCESS, [], s)"
| "params_loop (p # ps) s =
     (case lys_param_wait s of
        Inl f \<Rightarrow> Inl f
      | Inr (err, p_received_param, param_set, s1) \<Rightarrow>
          if err \<noteq> LYS_ERROR_SUCCESS then Inr (err, p # ps, s1)
          else if \<not> param_set then Inr (LYS_ERROR_INVALID_PARAM, p # ps, s1)
          else
            (case p_received_param of
               None \<Rightarrow> Inl BadPointer
             | Some r \<Rightarrow>
                 if param_type p \<noteq> param_type r then Inr (LYS_ERROR_INVALID_PARAM, p # ps, s1)
                 else
                   (case param_store p r of
                      Inl f \<Rightarrow> Inl f
                    | Inr (err, p') \<Rightarrow>
                        if err \<noteq> LYS_ERROR_SUCCESS then Inr (err, p' # ps, s1)
                        else
                          (case params_loop ps s1 of
                             Inl f \<Rightarrow> Inl f
                           | Inr (err, ps', s2) \<Rightarrow> Inr (err, p' # ps', s2)))))"

text \<open>
  The first \<^verbatim>\<open>if\<close> block of \<^verbatim>\<open>lys_param_send\<close> and of \<^verbatim>\<open>lys_finish\<close> (the same text in
  both): in \<^verbatim>\<open>LYS_STATE_RUNNING\<close>, send \<^verbatim>\<open>LYS_OP_RESULT\<close> and move to \<^verbatim>\<open>LYS_STATE_RESULT\<close>.
\<close>

definition result_begin :: "lys \<Rightarrow> fault + (lys_error_t \<times> lys)" where
  "result_begin s =
     (if m_state s = LYS_STATE_RUNNING then
        (case msg_send_and_ack LYS_OP_RESULT None s of
           Inl f \<Rightarrow> Inl f
         | Inr (err, s1) \<Rightarrow>
             if err \<noteq> LYS_ERROR_SUCCESS then Inr (err, error s1)
             else Inr (LYS_ERROR_SUCCESS, s1\<lparr>m_state := LYS_STATE_RESULT\<rparr>))
      else Inr (LYS_ERROR_SUCCESS, s))"

definition lys_param_send :: "lys_param_t option \<Rightarrow> lys \<Rightarrow> fault + (lys_error_t \<times> lys)" where
  "lys_param_send p_param s =
     (case result_begin s of
        Inl f \<Rightarrow> Inl f
      | Inr (err, s1) \<Rightarrow>
          if err \<noteq> LYS_ERROR_SUCCESS then Inr (err, s1)
          else if m_state s1 \<noteq> LYS_STATE_RESULT then Inr (LYS_ERROR_INVALID_STATE, s1)
          else
            (case msg_send_and_ack LYS_OP_PARAM p_param s1 of
               Inl f \<Rightarrow> Inl f
             | Inr (err, s2) \<Rightarrow>
                 if err \<noteq> LYS_ERROR_SUCCESS then Inr (err, error s2)
                 else Inr (LYS_ERROR_SUCCESS, s2)))"

definition lys_finish :: "lys \<Rightarrow> fault + (lys_error_t \<times> lys)" where
  "lys_finish s =
     (case result_begin s of
        Inl f \<Rightarrow> Inl f
      | Inr (err, s1) \<Rightarrow>
          if err \<noteq> LYS_ERROR_SUCCESS then Inr (err, s1)
          else if m_state s1 \<noteq> LYS_STATE_RESULT then Inr (LYS_ERROR_INVALID_STATE, s1)
          else
            (case msg_send_and_ack LYS_OP_FINISHED None s1 of
               Inl f \<Rightarrow> Inl f
             | Inr (err, s2) \<Rightarrow>
                 if err \<noteq> LYS_ERROR_SUCCESS then Inr (err, error s2)
                 else Inr (LYS_ERROR_SUCCESS, s2\<lparr>m_state := LYS_STATE_RESULT\<rparr>)))"

fun lys_results_send :: "lys_param_t list \<Rightarrow> lys \<Rightarrow> fault + (lys_error_t \<times> lys)" where
  "lys_results_send [] s = lys_finish s"
| "lys_results_send (p # ps) s =
     (case lys_param_send (Some p) s of
        Inl f \<Rightarrow> Inl f
      | Inr (err, s1) \<Rightarrow>
          if err \<noteq> LYS_ERROR_SUCCESS then Inr (err, s1)
          else lys_results_send ps s1)"

definition lys_error_send :: "lys \<Rightarrow> fault + (lys_error_t \<times> lys)" where
  "lys_error_send s =
     (case msg_create LYS_OP_UNKNOWN None (error s) of
        Inl f \<Rightarrow> Inl f
      | Inr (err, s1) \<Rightarrow>
          if err \<noteq> LYS_ERROR_SUCCESS then Inr (err, s1)
          else
            (case msg_send s1 of
               Inl f \<Rightarrow> Inl f
             | Inr s2 \<Rightarrow> wait_for_ack s2))"

definition lys_log_send :: "lys_str_t option \<Rightarrow> lys \<Rightarrow> fault + (lys_error_t \<times> lys)" where
  "lys_log_send p_str s =
     (if m_state s = LYS_STATE_WAIT_FOR_START \<or> m_state s = LYS_STATE_RESULT
      then Inr (LYS_ERROR_INVALID_STATE, s)
      else
        let s1 = s\<lparr>m_param := \<lparr>param_type = LYS_PARAM_TYPE_STRING,
                                data = (case p_str of None \<Rightarrow> NULL | Some str \<Rightarrow> P_str str)\<rparr>\<rparr> in
        (case msg_send_and_ack LYS_OP_LOG (Some (m_param s1)) s1 of
           Inl f \<Rightarrow> Inl f
         | Inr (err, s2) \<Rightarrow>
             if err \<noteq> LYS_ERROR_SUCCESS then Inr (err, error s2)
             else Inr (LYS_ERROR_SUCCESS, s2)))"

subsection \<open>Programs over the public operations\<close>

text \<open>
  The statics as the C start-up code leaves them (zeroed, with the initialisers of
  \<^verbatim>\<open>lys.c\<close>), in front of a transport with the given schedules.
\<close>

definition lys_boot :: "nat list \<Rightarrow> u8 list list \<Rightarrow> lys" where
  "lys_boot accept down =
     \<lparr>m_buf = replicate 64 0, m_buf_index = 0, m_state = LYS_STATE_UNKNOWN, m_error = False,
      m_str = \<lparr>len = 0, p_data = []\<rparr>,
      m_array = \<lparr>a_param_type = 0, a_item_count = 0, a_data = []\<rparr>,
      m_param = \<lparr>param_type = 0, data = NULL\<rparr>,
      rtt_up = [], rtt_accept = accept, rtt_down = down\<rparr>"

text \<open>
  A call of a public operation with its arguments; it yields the error code returned
  (\<^verbatim>\<open>lys_init\<close> returns nothing, taken as success) and the state it leaves. A program
  is a list of calls, run in order whatever the calls return.
\<close>

datatype call =
  Init | Param_wait | Params_receive "lys_param_t list" | Param_send "lys_param_t option"
  | Results_send "lys_param_t list" | Finish | Error_send | Log_send "lys_str_t option"

fun lys_call :: "call \<Rightarrow> lys \<Rightarrow> fault + (lys_error_t \<times> lys)" where
  "lys_call Init s = Inr (LYS_ERROR_SUCCESS, lys_init s)"
| "lys_call Param_wait s =
     map_sum id (\<lambda>(err, p_param, param_set, s'). (err, s')) (lys_param_wait s)"
| "lys_call (Params_receive ps) s =
     map_sum id (\<lambda>(err, ps', s'). (err, s')) (lys_params_receive ps s)"
| "lys_call (Param_send p) s = lys_param_send p s"
| "lys_call (Results_send ps) s = lys_results_send ps s"
| "lys_call Finish s = lys_finish s"
| "lys_call Error_send s = lys_error_send s"
| "lys_call (Log_send p_str) s = lys_log_send p_str s"

fun lys_run :: "call list \<Rightarrow> lys \<Rightarrow> fault + lys" where
  "lys_run [] s = Inr s"
| "lys_run (c # cs) s =
     (case lys_call c s of Inl f \<Rightarrow> Inl f | Inr (err, s1) \<Rightarrow> lys_run cs s1)"

subsection \<open>What the host and the channel do\<close>

text \<open>
  \<open>accepts sched n\<close>: the write schedule left once a blocking send of \<open>n\<close> bytes is
  through, in whatever pieces the channel takes them; \<open>None\<close> when the schedule ends
  before the last byte is taken.
\<close>

fun accepts :: "nat list \<Rightarrow> nat \<Rightarrow> nat list option" where
  "accepts as 0 = Some as"
| "accepts [] (Suc n) = None"
| "accepts (a # as) (Suc n) = accepts as (Suc n - a)"

text \<open>
  \<open>delivers sched f\<close>: successive reads find the bytes of \<open>f\<close>, whole or in pieces
  (also empty ones), and nothing beyond them; the result is the read schedule left.
\<close>

fun delivers :: "u8 list list \<Rightarrow> u8 list \<Rightarrow> u8 list list option" where
  "delivers [] f = None"
| "delivers (c # cs) f =
     (if c = f then Some cs
      else if length c < length f \<and> take (length c) f = c then delivers cs (drop (length c) f)
      else None)"

subsection \<open>Parameter values\<close>

text \<open>
  What a \<^verbatim>\<open>lys_param_t\<close> denotes: a scalar of its tag with the bytes of the tag's size,
  a string of \<open>len\<close> bytes, or an array with its item tag, item count and item bytes.
  A parameter whose pointer is null or of the wrong kind, whose tag has no such
  value, or whose storage is shorter than the extent denotes nothing.
\<close>

datatype lys_value =
  V_scalar lys_param_type_t "u8 list" | V_str "u8 list" | V_array lys_param_type_t u32 "u8 list"

definition param_value :: "lys_param_t \<Rightarrow> lys_value option" where
  "param_value p =
     (case data p of
        NULL \<Rightarrow> None
      | P_uint8 bs \<Rightarrow>
          (case lys_param_len_lookup (param_type p) of
             Inl err \<Rightarrow> None
           | Inr n \<Rightarrow>
               if n \<noteq> LYS_PARAM_VARIABLE_SIZE \<and> unat n \<le> length bs
               then Some (V_scalar (param_type p) (take (unat n) bs)) else None)
      | P_str str \<Rightarrow>
          if param_type p = LYS_PARAM_TYPE_STRING \<and> unat (len str) \<le> length (p_data str)
          then Some (V_str (take (unat (len str)) (p_data str))) else None
      | P_array a \<Rightarrow>
          (case lys_param_len_lookup (a_param_type a) of
             Inl err \<Rightarrow> None
           | Inr n \<Rightarrow>
               if param_type p = LYS_PARAM_TYPE_ARRAY \<and> n \<noteq> LYS_PARAM_VARIABLE_SIZE
                  \<and> unat n * unat (a_item_count a) \<le> length (a_data a)
               then Some (V_array (a_param_type a) (a_item_count a)
                            (take (unat n * unat (a_item_count a)) (a_data a)))
               else None))"

text \<open>
  Encoding a \<^verbatim>\<open>LYS_OP_PARAM\<close> frame with \<open>p\<close> into the scratch buffer succeeds, and
  decoding the buffer then yields the op \<^verbatim>\<open>LYS_OP_PARAM\<close> and a view of the same value.
\<close>

definition roundtrip :: "lys \<Rightarrow> lys_param_t \<Rightarrow> bool" where
  "roundtrip s p =
     (case msg_create LYS_OP_PARAM (Some p) s of
        Inr (LYS_ERROR_SUCCESS, s1) \<Rightarrow>
          (case msg_parse s1 of
             Inr (LYS_ERROR_SUCCESS, op, Some r, s2) \<Rightarrow>
               op = LYS_OP_PARAM \<and> param_value r = param_value p
           | _ \<Rightarrow> False)
      | _ \<Rightarrow> False)"

subsection \<open>The host side of the parameter phase\<close>

text \<open>
  The bytes of the \<^verbatim>\<open>LYS_OP_PARAM\<close> frame that carries \<open>v\<close>: what \<^verbatim>\<open>msg_create\<close> leaves in
  the scratch buffer (the empty list when it refuses \<open>v\<close>).
\<close>

definition param_frame :: "lys_param_t \<Rightarrow> u8 list" where
  "param_frame v =
     (case msg_create LYS_OP_PARAM (Some v) (lys_boot [] []) of
        Inl f \<Rightarrow> []
      | Inr (err, s1) \<Rightarrow> frame s1)"

text \<open>
  The values a \<^verbatim>\<open>LYS_OP_PARAM\<close> frame can carry: a scalar, a string of 1 to 61 bytes, an
  array of at least one item and at most 60 bytes.
\<close>

definition wire_value :: "lys_param_t \<Rightarrow> bool" where
  "wire_value v \<longleftrightarrow>
     (case param_value v of
        None \<Rightarrow> False
      | Some (V_scalar t bs) \<Rightarrow> True
      | Some (V_str bs) \<Rightarrow> 1 \<le> length bs \<and> length bs \<le> 61
      | Some (V_array t n bs) \<Rightarrow> n \<noteq> 0 \<and> length bs \<le> 60)"

text \<open>
  \<open>fits p v\<close>: the expected entry \<open>p\<close> has the tag of the value \<open>v\<close>, and the storage it
  points to is of the kind of \<open>v\<close> and takes its bytes.
\<close>

definition fits :: "lys_param_t \<Rightarrow> lys_param_t \<Rightarrow> bool" where
  "fits p v \<longleftrightarrow> param_type p = param_type v \<and> wire_value v \<and>
     (case param_value v of
        None \<Rightarrow> False
      | Some (V_scalar t bs) \<Rightarrow>
          (case data p of P_uint8 dst \<Rightarrow> length bs \<le> length dst | _ \<Rightarrow> False)
      | Some (V_str bs) \<Rightarrow>
          (case data p of P_str dst \<Rightarrow> length bs \<le> length (p_data dst) | _ \<Rightarrow> False)
      | Some (V_array t n bs) \<Rightarrow>
          (case data p of P_array dst \<Rightarrow> length bs \<le> length (a_data dst) | _ \<Rightarrow> False))"

text \<open>
  \<open>serves fs down acc\<close>: the host delivers the frames \<open>fs\<close> one after the other (each
  whole or in pieces, nothing in between), and the transport takes the two bytes of the
  ACK that answers each; the result is what is left of the two schedules.
\<close>

fun serves :: "u8 list list \<Rightarrow> u8 list list \<Rightarrow> nat list \<Rightarrow> (u8 list list \<times> nat list) option" where
  "serves [] down acc = Some (down, acc)"
| "serves (f # fs) down acc =
     (case delivers down f of
        None \<Rightarrow> None
      | Some down' \<Rightarrow>
          (case accepts acc 2 of
             None \<Rightarrow> None
           | Some acc' \<Rightarrow> serves fs down' acc'))"

section \<open>Properties\<close>

subsection \<open>Words and the type table\<close>

lemma unat_add8: "unat a + unat b < 256 \<Longrightarrow> unat (a + b :: u8) = unat a + unat b"
  by (simp add: unat_word_ariths)

lemma unat_add32: "unat a + unat b < 4294967296 \<Longrightarrow> unat (a + b :: u32) = unat a + unat b"
  by (simp add: unat_word_ariths)

lemma unat_ucast_32_8: "unat n < 256 \<Longrightarrow> unat (ucast (n :: u32) :: u8) = unat n"
  by (simp add: unsigned_ucast_eq take_bit_eq_mod)

lemma unat_ucast_8_32: "unat (ucast (n :: u8) :: u32) = unat n"
  using unsigned_less [of n, where 'a = nat]
  by (simp add: unsigned_ucast_eq take_bit_eq_mod)

lemma lookup_cases:
  "lys_param_len_lookup t = Inr n \<Longrightarrow>
     (t = 0 \<and> n = 4) \<or> (t = 1 \<and> n = 4) \<or> (t = 2 \<and> n = 1) \<or> (t = 3 \<and> n = 1)
     \<or> (t = 4 \<and> n = 1) \<or> (t = 5 \<and> n = 0) \<or> (t = 6 \<and> n = 0)"
  by (auto simp: lys_param_len_lookup_def split: if_splits)

lemma lookup_err: "lys_param_len_lookup t = Inl e \<Longrightarrow> e = LYS_ERROR_INVALID_PARAM"
  by (auto simp: lys_param_len_lookup_def split: if_splits)

lemma verify_str_len_err: "verify_str_len p = Inl e \<Longrightarrow> e = LYS_ERROR_INVALID_PARAM"
  by (auto simp: verify_str_len_def split: if_splits option.splits)

lemma verify_array_len_err: "verify_array_len p = Inl e \<Longrightarrow> e = LYS_ERROR_INVALID_PARAM"
  by (auto simp: verify_array_len_def Let_def split: if_splits option.splits sum.splits
      dest: lookup_err)

subsection \<open>Encoding: the length prefix\<close>

lemma buf_push_simps [simp]:
  "m_buf (buf_push b s) = (m_buf s)[unat (m_buf_index s) := b]"
  "m_buf_index (buf_push b s) = m_buf_index s + 1"
  by (simp_all add: buf_push_def)

lemma param_emit_index:
  assumes "param_emit t src n s = Inr (e, s')" and "unat (m_buf_index s) \<le> 3"
    and "length (m_buf s) = 64"
  shows "e = LYS_ERROR_SUCCESS \<and> length (m_buf s') = length (m_buf s)
     \<and> unat (m_buf_index s') = unat (m_buf_index s) + 1 + unat n
     \<and> unat (m_buf_index s') \<le> length (m_buf s)"
proof -
  have i: "unat (m_buf_index s + 1) = unat (m_buf_index s) + 1"
    using assms(2) by (simp add: unat_add8)
  from assms(1) have g: "unat (m_buf_index s) + 1 + unat n \<le> length (m_buf s)"
    and e: "e = LYS_ERROR_SUCCESS"
    and s': "s' = (buf_push (ucast t) s)
      \<lparr>m_buf := take (unat (m_buf_index s + 1)) (m_buf (buf_push (ucast t) s)) @ take (unat n) src
          @ drop (unat (m_buf_index s + 1) + unat n) (m_buf (buf_push (ucast t) s)),
       m_buf_index := m_buf_index s + 1 + ucast n\<rparr>"
    and l: "unat n \<le> length src"
    by (auto simp: param_emit_def Let_def i split: if_splits)
  have n: "unat (ucast n :: u8) = unat n"
    using g assms(3) by (simp add: unat_ucast_32_8)
  have "unat (m_buf_index s + 1 + ucast n) = unat (m_buf_index s) + 1 + unat n"
    using g assms(3) i n by (simp add: unat_add8)
  then show ?thesis
    using g l e by (simp add: s' i)
qed

lemma param_add_index:
  assumes "param_add p s = Inr (LYS_ERROR_SUCCESS, s')" and "m_buf_index s = 2"
    and "length (m_buf s) = 64"
  shows "length (m_buf s') = 64 \<and> 3 \<le> unat (m_buf_index s') \<and> unat (m_buf_index s') \<le> 64"
proof -
  have e: "length (m_buf s') = 64 \<and> 3 \<le> unat (m_buf_index s') \<and> unat (m_buf_index s') \<le> 64"
    if "param_emit t src n s0 = Inr (LYS_ERROR_SUCCESS, s')"
      and "m_buf_index s0 = 2 \<or> m_buf_index s0 = 3" and "length (m_buf s0) = 64"
    for t src n s0
    using param_emit_index [OF that(1)] that(2,3) by auto
  show ?thesis
    using assms
    by (auto simp: param_add_def split: option.splits sum.splits if_splits lys_ptr.splits
        dest!: e lookup_err verify_str_len_err verify_array_len_err)
qed

lemma msg_create_frame:
  assumes "msg_create op p s = Inr (LYS_ERROR_SUCCESS, s')" and "length (m_buf s) = 64"
  shows "m_buf s' ! 0 = m_buf_index s' \<and> 2 \<le> unat (m_buf_index s')
    \<and> unat (m_buf_index s') \<le> 64 \<and> length (m_buf s') = 64"
proof -
  let ?s1 = "buf_push (ucast op) (s\<lparr>m_buf_index := 1\<rparr>)"
  have s1: "m_buf_index ?s1 = 2" "length (m_buf ?s1) = 64"
    using assms(2) by simp_all
  show ?thesis
    using assms s1
    by (auto simp: msg_create_def Let_def split: if_splits sum.splits dest!: param_add_index)
qed

text \<open>
  C7. Whenever \<^verbatim>\<open>msg_create\<close> returns \<^verbatim>\<open>LYS_ERROR_SUCCESS\<close>, for any op and any parameter,
  the frame it leaves in the scratch buffer has its first byte equal to its own
  number of bytes (the length byte included), and that number is at most 64
  (\<^verbatim>\<open>LYS_MAX_MSG_LEN\<close>).
\<close>

theorem msg_create_len_prefix:
  assumes "length (m_buf s) = 64" and "msg_create op p s = Inr (LYS_ERROR_SUCCESS, s')"
  shows "unat (frame s' ! 0) = length (frame s') \<and> length (frame s') \<le> 64"
  using msg_create_frame [OF assms(2,1)] by (simp add: frame_def)

lemma msg_create_uint8_7:
  "msg_create LYS_OP_PARAM (Some \<lparr>param_type = LYS_PARAM_TYPE_UINT8, data = P_uint8 [7]\<rparr>)
     (lys_boot [] [])
   = Inr (LYS_ERROR_SUCCESS,
       (lys_boot [] [])\<lparr>m_buf := [4, 5, 2, 7] @ replicate 60 0, m_buf_index := 4\<rparr>)"
  apply (simp add: msg_create_def param_add_def param_emit_def lys_param_len_lookup_def
      lys_boot_def Let_def buf_push_def)
  apply (simp add: numeral_eq_Suc)
  done

theorem msg_create_len_prefix_witness:
  "length (m_buf (lys_boot [] [])) = 64
   \<and> msg_create LYS_OP_PARAM (Some \<lparr>param_type = LYS_PARAM_TYPE_UINT8, data = P_uint8 [7]\<rparr>)
       (lys_boot [] [])
     = Inr (LYS_ERROR_SUCCESS,
         (lys_boot [] [])\<lparr>m_buf := [4, 5, 2, 7] @ replicate 60 0, m_buf_index := 4\<rparr>)
   \<and> unat (frame ((lys_boot [] [])\<lparr>m_buf := [4, 5, 2, 7] @ replicate 60 0, m_buf_index := 4\<rparr>) ! 0)
     = length (frame ((lys_boot [] [])\<lparr>m_buf := [4, 5, 2, 7] @ replicate 60 0, m_buf_index := 4\<rparr>))
   \<and> length (frame ((lys_boot [] [])\<lparr>m_buf := [4, 5, 2, 7] @ replicate 60 0, m_buf_index := 4\<rparr>))
     \<le> 64"
proof -
  have l: "length (m_buf (lys_boot [] [])) = 64"
    by (simp add: lys_boot_def)
  show ?thesis
    using l msg_create_uint8_7 msg_create_len_prefix [OF l msg_create_uint8_7] by simp
qed

subsection \<open>Round trip\<close>

lemma param_emit_eq:
  assumes "unat (m_buf_index s) = i" and "i \<le> 3" and "length (m_buf s) = 64"
    and "i + 1 + unat n \<le> 64" and "unat n \<le> length src"
  shows "param_emit t src n s = Inr (LYS_ERROR_SUCCESS,
     s\<lparr>m_buf := take (i + 1) ((m_buf s)[i := ucast t]) @ take (unat n) src
          @ drop (i + 1 + unat n) (m_buf s),
       m_buf_index := m_buf_index s + 1 + ucast n\<rparr>)"
proof -
  have i: "unat (m_buf_index s + 1) = i + 1"
    using assms(1,2) by (simp add: unat_add8)
  show ?thesis
    using assms by (simp add: param_emit_def Let_def i buf_push_def)
qed

lemma len_back_3: "unat n \<le> 61 \<Longrightarrow> ucast ((3 :: u8) + ucast n) - 3 = (n :: u32)"
  apply (rule word_unat_eq_iff [THEN iffD2])
  apply (subst unat_sub)
   apply (simp add: word_le_nat_alt unat_ucast_8_32 unat_add8 unat_ucast_32_8)
  apply (simp add: word_le_nat_alt unat_ucast_8_32 unat_add8 unat_ucast_32_8)
  done

lemma len_back_4: "unat n \<le> 60 \<Longrightarrow> ucast ((4 :: u8) + ucast n) - 4 = (n :: u32)"
  apply (rule word_unat_eq_iff [THEN iffD2])
  apply (subst unat_sub)
   apply (simp add: word_le_nat_alt unat_ucast_8_32 unat_add8 unat_ucast_32_8)
  apply (simp add: word_le_nat_alt unat_ucast_8_32 unat_add8 unat_ucast_32_8)
  done


lemma roundtrip_scalar:
  assumes b: "length (m_buf s) = 64" and d: "data p = P_uint8 bs"
    and l: "lys_param_len_lookup (param_type p) = Inr n" and n: "n \<noteq> 0" "unat n \<le> length bs"
  shows "roundtrip s p"
proof -
  from lookup_cases [OF l] n(1)
  consider "param_type p = 0" "n = 4" | "param_type p = 1" "n = 4" | "param_type p = 2" "n = 1"
    | "param_type p = 3" "n = 1" | "param_type p = 4" "n = 1"
    by auto
  then show ?thesis
  proof cases
    case 1
    then show ?thesis
      using b d l n
      by (simp add: roundtrip_def msg_create_def param_add_def Let_def param_emit_eq [where i = 2]
          msg_parse_def param_parse_def param_value_def lys_param_len_lookup_def nth_append)
  next
    case 2
    then show ?thesis
      using b d l n
      by (simp add: roundtrip_def msg_create_def param_add_def Let_def param_emit_eq [where i = 2]
          msg_parse_def param_parse_def param_value_def lys_param_len_lookup_def nth_append)
  next
    case 3
    then show ?thesis
      using b d l n
      by (simp add: roundtrip_def msg_create_def param_add_def Let_def param_emit_eq [where i = 2]
          msg_parse_def param_parse_def param_value_def lys_param_len_lookup_def nth_append)
  next
    case 4
    then show ?thesis
      using b d l n
      by (simp add: roundtrip_def msg_create_def param_add_def Let_def param_emit_eq [where i = 2]
          msg_parse_def param_parse_def param_value_def lys_param_len_lookup_def nth_append)
  next
    case 5
    then show ?thesis
      using b d l n
      by (simp add: roundtrip_def msg_create_def param_add_def Let_def param_emit_eq [where i = 2]
          msg_parse_def param_parse_def param_value_def lys_param_len_lookup_def nth_append)
  qed
qed


lemma lookup_simps:
  "lys_param_len_lookup 0 = Inr 4" "lys_param_len_lookup 1 = Inr 4"
  "lys_param_len_lookup 2 = Inr 1" "lys_param_len_lookup 3 = Inr 1"
  "lys_param_len_lookup 4 = Inr 1" "lys_param_len_lookup 5 = Inr 0"
  "lys_param_len_lookup 6 = Inr 0"
  by (simp_all add: lys_param_len_lookup_def)

lemma verify_str_len_ok:
  "unat (len str) \<le> 61 \<Longrightarrow> len str \<noteq> 0 \<Longrightarrow> verify_str_len (Some str) = Inr (len str)"
  by (simp add: verify_str_len_def word_less_nat_alt unat_add32)

lemma roundtrip_str:
  assumes b: "length (m_buf s) = 64" and d: "data p = P_str str"
    and t: "param_type p = LYS_PARAM_TYPE_STRING"
    and n: "len str \<noteq> 0" "unat (len str) \<le> 61" "unat (len str) \<le> length (p_data str)"
  shows "roundtrip s p"
proof -
  have i: "unat ((3 :: u8) + ucast (len str)) = 3 + unat (len str)"
    using n(2) by (simp add: unat_add8 unat_ucast_32_8)
  show ?thesis
    using b d t n
    by (simp add: roundtrip_def msg_create_def param_add_def Let_def param_emit_eq [where i = 2]
        verify_str_len_ok msg_parse_def param_parse_def param_value_def
        lys_param_len_lookup_def nth_append len_back_3)
qed

lemma verify_array_len_ok:
  assumes "lys_param_len_lookup (a_param_type a) = Inr n" and "n \<noteq> 0"
    and "a_item_count a \<noteq> 0" and "unat n * unat (a_item_count a) \<le> 60"
  shows "verify_array_len (Some a) = Inr (n * a_item_count a)
    \<and> unat (n * a_item_count a) = unat n * unat (a_item_count a)"
proof -
  have m: "unat (n * a_item_count a) = unat n * unat (a_item_count a)"
    using assms(4) by (simp add: unat_mult_lem [THEN iffD1])
  then show ?thesis
    using assms by (simp add: verify_array_len_def Let_def word_less_nat_alt unat_add32)
qed

lemma array_count_back:
  assumes "unat n * unat c \<le> 60" and "n \<noteq> 0"
  shows "(n * c) mod n = 0 \<and> (n * c) div n = (c :: u32)"
proof -
  have m: "unat (n * c) = unat n * unat c"
    using assms(1) by (simp add: unat_mult_lem [THEN iffD1])
  have n: "0 < unat n"
    using assms(2) by (simp add: unat_gt_0)
  have "unat ((n * c) mod n) = 0"
    by (simp add: unat_mod m)
  moreover have "unat ((n * c) div n) = unat c"
    using n by (simp add: unat_div m)
  ultimately show ?thesis
    by (simp add: word_unat_eq_iff)
qed

lemma roundtrip_array:
  assumes b: "length (m_buf s) = 64" and d: "data p = P_array a"
    and t: "param_type p = LYS_PARAM_TYPE_ARRAY"
    and l: "lys_param_len_lookup (a_param_type a) = Inr n" and n: "n \<noteq> 0"
    and c: "a_item_count a \<noteq> 0" "unat n * unat (a_item_count a) \<le> 60"
      "unat n * unat (a_item_count a) \<le> length (a_data a)"
  shows "roundtrip s p"
proof -
  note v = verify_array_len_ok [OF l n c(1,2)]
  note k = array_count_back [OF c(2) n]
  have tt: "ucast (ucast (a_param_type a) :: u8) = a_param_type a"
    "(ucast (a_param_type a) :: u8) \<noteq> 6" "a_param_type a \<noteq> 6"
    using lookup_cases [OF l] n by auto
  have i: "unat ((4 :: u8) + ucast (n * a_item_count a)) = 4 + unat n * unat (a_item_count a)"
    using c(2) v by (simp add: unat_add8 unat_ucast_32_8)
  have e: "param_emit (a_param_type a) (a_data a) (n * a_item_count a)
       (buf_push 6 (buf_push 5 (s\<lparr>m_buf_index := 1\<rparr>)))
     = Inr (LYS_ERROR_SUCCESS, (buf_push 6 (buf_push 5 (s\<lparr>m_buf_index := 1\<rparr>)))
        \<lparr>m_buf := take 4 ((m_buf s)[1 := 5, 2 := 6, 3 := ucast (a_param_type a)])
           @ take (unat n * unat (a_item_count a)) (a_data a)
           @ drop (4 + unat n * unat (a_item_count a)) ((m_buf s)[1 := 5, 2 := 6]),
         m_buf_index := 4 + ucast (n * a_item_count a)\<rparr>)"
    using b c v by (subst param_emit_eq [where i = 3]) simp_all
  show ?thesis
    using b d t n c l
    by (simp add: roundtrip_def msg_create_def param_add_def Let_def e v
        msg_parse_def param_parse_def param_value_def i tt k lookup_simps
        nth_append len_back_4)
qed

text \<open>What \<^verbatim>\<open>msg_create\<close> does with a string or an array too long for a frame.\<close>

lemma verify_str_len_long:
  "61 < unat (len str) \<Longrightarrow> unat (len str) \<le> 64 \<Longrightarrow>
     verify_str_len (Some str) = Inl LYS_ERROR_INVALID_PARAM"
  by (auto simp: verify_str_len_def word_less_nat_alt unat_add32)

lemma verify_array_len_long:
  assumes "lys_param_len_lookup (a_param_type a) = Inr n"
    and "60 < unat n * unat (a_item_count a)" and "unat n * unat (a_item_count a) \<le> 64"
  shows "verify_array_len (Some a) = Inl LYS_ERROR_INVALID_PARAM"
proof -
  have m: "unat (n * a_item_count a) = unat n * unat (a_item_count a)"
    using assms(3) by (simp add: unat_mult_lem [THEN iffD1])
  then have "unat (4 + n * a_item_count a) = 4 + unat n * unat (a_item_count a)"
    using assms(3) by (simp add: unat_add32)
  with assms(1,2) show ?thesis
    by (simp add: verify_array_len_def Let_def word_less_nat_alt)
qed

lemma msg_create_refuses_long:
  assumes "param_value p = Some v"
    and "case v of V_scalar t bs \<Rightarrow> False
         | V_str bs \<Rightarrow> 62 \<le> length bs \<and> length bs \<le> 64
         | V_array t n bs \<Rightarrow> 61 \<le> length bs \<and> length bs \<le> 64"
  shows "msg_create LYS_OP_PARAM (Some p) s
     = Inr (LYS_ERROR_INVALID_PARAM, buf_push 5 (s\<lparr>m_buf_index := 1\<rparr>))"
proof (cases "data p")
  case NULL
  with assms(1) show ?thesis
    by (simp add: param_value_def)
next
  case (P_uint8 bs)
  with assms show ?thesis
    by (auto simp: param_value_def split: sum.splits if_splits)
next
  case (P_str str)
  with assms have t: "param_type p = LYS_PARAM_TYPE_STRING" and "61 < unat (len str)"
    "unat (len str) \<le> 64"
    by (auto simp: param_value_def min_def split: if_splits)
  then have "verify_str_len (Some str) = Inl LYS_ERROR_INVALID_PARAM"
    by (intro verify_str_len_long)
  with P_str t show ?thesis
    by (simp add: msg_create_def param_add_def lookup_simps)
next
  case (P_array a)
  with assms obtain n where t: "param_type p = LYS_PARAM_TYPE_ARRAY"
    and l: "lys_param_len_lookup (a_param_type a) = Inr n"
    and "60 < unat n * unat (a_item_count a)" "unat n * unat (a_item_count a) \<le> 64"
    by (auto simp: param_value_def min_def split: sum.splits if_splits)
  then have "verify_array_len (Some a) = Inl LYS_ERROR_INVALID_PARAM"
    by (intro verify_array_len_long)
  with P_array t show ?thesis
    by (simp add: msg_create_def param_add_def lookup_simps)
qed

text \<open>
  C1 (amended). Round trip of the codec: for every parameter denoting a value (a scalar
  of tag U32, I32, U8, I8 or BOOL, a string, an array of scalars) that fits a frame,
  that is a string of 1 to 61 bytes or an array of at least one item and at most 60
  item bytes, encoding a \<^verbatim>\<open>LYS_OP_PARAM\<close> frame into the scratch buffer and decoding
  the buffer yields op \<^verbatim>\<open>LYS_OP_PARAM\<close> and a view of the same value (same tag, same
  length or item count, same bytes). A longer string or array within
  \<^verbatim>\<open>LYS_MAX_STR_LEN\<close> = \<^verbatim>\<open>LYS_MAX_ARRAY_LEN\<close> = 64, that is a string of 62 to 64 bytes or an
  array of 61 to 64 item bytes, is refused by \<^verbatim>\<open>msg_create\<close> with
  \<^verbatim>\<open>LYS_ERROR_INVALID_PARAM\<close>, so that it makes no round trip.
\<close>

theorem codec_roundtrip:
  assumes "length (m_buf s) = 64" and "param_value p = Some v"
  shows "((case v of V_scalar t bs \<Rightarrow> True
          | V_str bs \<Rightarrow> 1 \<le> length bs \<and> length bs \<le> 61
          | V_array t n bs \<Rightarrow> n \<noteq> 0 \<and> length bs \<le> 60) \<longrightarrow> roundtrip s p)
       \<and> ((case v of V_scalar t bs \<Rightarrow> False
          | V_str bs \<Rightarrow> 62 \<le> length bs \<and> length bs \<le> 64
          | V_array t n bs \<Rightarrow> 61 \<le> length bs \<and> length bs \<le> 64) \<longrightarrow>
            (\<exists>s1. msg_create LYS_OP_PARAM (Some p) s = Inr (LYS_ERROR_INVALID_PARAM, s1))
            \<and> \<not> roundtrip s p)"
proof (intro conjI impI)
  assume b: "case v of V_scalar t bs \<Rightarrow> True
          | V_str bs \<Rightarrow> 1 \<le> length bs \<and> length bs \<le> 61
          | V_array t n bs \<Rightarrow> n \<noteq> 0 \<and> length bs \<le> 60"
  show "roundtrip s p"
  proof (cases "data p")
    case NULL
    with assms(2) show ?thesis
      by (simp add: param_value_def)
  next
    case (P_uint8 bs)
    with assms(2) show ?thesis
      by (auto simp: param_value_def split: sum.splits if_splits
          intro: roundtrip_scalar [OF assms(1)])
  next
    case (P_str str)
    with assms(2) b have "param_type p = LYS_PARAM_TYPE_STRING" "len str \<noteq> 0"
      "unat (len str) \<le> 61" "unat (len str) \<le> length (p_data str)"
      by (auto simp: param_value_def min_def split: if_splits)
    with P_str show ?thesis
      by (intro roundtrip_str [OF assms(1)])
  next
    case (P_array a)
    with assms(2) b obtain n where "param_type p = LYS_PARAM_TYPE_ARRAY"
      "lys_param_len_lookup (a_param_type a) = Inr n" "n \<noteq> 0" "a_item_count a \<noteq> 0"
      "unat n * unat (a_item_count a) \<le> 60" "unat n * unat (a_item_count a) \<le> length (a_data a)"
      by (auto simp: param_value_def min_def split: sum.splits if_splits)
    with P_array show ?thesis
      by (intro roundtrip_array [OF assms(1)])
  qed
next
  assume "case v of V_scalar t bs \<Rightarrow> False
          | V_str bs \<Rightarrow> 62 \<le> length bs \<and> length bs \<le> 64
          | V_array t n bs \<Rightarrow> 61 \<le> length bs \<and> length bs \<le> 64"
  note r = msg_create_refuses_long [OF assms(2) this, of s]
  from r show "\<exists>s1. msg_create LYS_OP_PARAM (Some p) s = Inr (LYS_ERROR_INVALID_PARAM, s1)"
    by simp
  from r show "\<not> roundtrip s p"
    by (simp add: roundtrip_def)
qed

theorem codec_roundtrip_witness:
  "length (m_buf (lys_boot [] [])) = 64
   \<and> param_value \<lparr>param_type = LYS_PARAM_TYPE_STRING, data = P_str \<lparr>len = 2, p_data = [104, 105]\<rparr>\<rparr>
     = Some (V_str [104, 105])
   \<and> roundtrip (lys_boot [] [])
       \<lparr>param_type = LYS_PARAM_TYPE_STRING, data = P_str \<lparr>len = 2, p_data = [104, 105]\<rparr>\<rparr>
   \<and> param_value \<lparr>param_type = LYS_PARAM_TYPE_ARRAY,
        data = P_array \<lparr>a_param_type = LYS_PARAM_TYPE_UINT8, a_item_count = 61,
                        a_data = replicate 61 7\<rparr>\<rparr>
     = Some (V_array LYS_PARAM_TYPE_UINT8 61 (replicate 61 7))
   \<and> 61 \<le> length (replicate 61 (7 :: u8)) \<and> length (replicate 61 (7 :: u8)) \<le> 64
   \<and> (\<exists>s1. msg_create LYS_OP_PARAM
          (Some \<lparr>param_type = LYS_PARAM_TYPE_ARRAY,
             data = P_array \<lparr>a_param_type = LYS_PARAM_TYPE_UINT8, a_item_count = 61,
                             a_data = replicate 61 7\<rparr>\<rparr>) (lys_boot [] [])
        = Inr (LYS_ERROR_INVALID_PARAM, s1))
   \<and> \<not> roundtrip (lys_boot [] [])
        \<lparr>param_type = LYS_PARAM_TYPE_ARRAY,
          data = P_array \<lparr>a_param_type = LYS_PARAM_TYPE_UINT8, a_item_count = 61,
                          a_data = replicate 61 7\<rparr>\<rparr>"
proof -
  have l: "length (m_buf (lys_boot [] [])) = 64"
    by (simp add: lys_boot_def)
  have v: "param_value \<lparr>param_type = LYS_PARAM_TYPE_STRING, data = P_str \<lparr>len = 2, p_data = [104, 105]\<rparr>\<rparr>
     = Some (V_str [104, 105])"
    by (simp add: param_value_def)
  have a: "param_value \<lparr>param_type = LYS_PARAM_TYPE_ARRAY,
        data = P_array \<lparr>a_param_type = LYS_PARAM_TYPE_UINT8, a_item_count = 61,
                        a_data = replicate 61 7\<rparr>\<rparr>
     = Some (V_array LYS_PARAM_TYPE_UINT8 61 (replicate 61 7))"
    by (simp add: param_value_def lookup_simps)
  show ?thesis
    using l v a codec_roundtrip [OF l v] codec_roundtrip [OF l a] by simp
qed

text \<open>
  A string of 62 bytes is within \<^verbatim>\<open>LYS_MAX_STR_LEN\<close>, and \<^verbatim>\<open>msg_create\<close> refuses it:
  3 + 62 exceeds \<^verbatim>\<open>LYS_MAX_MSG_LEN\<close>.
\<close>

theorem codec_roundtrip_str_62_counterexample:
  "param_value \<lparr>param_type = LYS_PARAM_TYPE_STRING,
       data = P_str \<lparr>len = 62, p_data = replicate 62 65\<rparr>\<rparr> = Some (V_str (replicate 62 65))
   \<and> 1 \<le> length (replicate 62 (65 :: u8)) \<and> length (replicate 62 (65 :: u8)) \<le> 64
   \<and> msg_create LYS_OP_PARAM
        (Some \<lparr>param_type = LYS_PARAM_TYPE_STRING,
           data = P_str \<lparr>len = 62, p_data = replicate 62 65\<rparr>\<rparr>) (lys_boot [] [])
      = Inr (LYS_ERROR_INVALID_PARAM,
          (lys_boot [] [])\<lparr>m_buf := (replicate 64 0)[1 := 5], m_buf_index := 2\<rparr>)
   \<and> \<not> roundtrip (lys_boot [] [])
        \<lparr>param_type = LYS_PARAM_TYPE_STRING, data = P_str \<lparr>len = 62, p_data = replicate 62 65\<rparr>\<rparr>
   \<and> param_value \<lparr>param_type = LYS_PARAM_TYPE_ARRAY,
       data = P_array \<lparr>a_param_type = LYS_PARAM_TYPE_UINT8, a_item_count = 61,
                       a_data = replicate 61 65\<rparr>\<rparr>
      = Some (V_array LYS_PARAM_TYPE_UINT8 61 (replicate 61 65))
   \<and> length (replicate 61 (65 :: u8)) \<le> 64
   \<and> \<not> roundtrip (lys_boot [] [])
        \<lparr>param_type = LYS_PARAM_TYPE_ARRAY,
         data = P_array \<lparr>a_param_type = LYS_PARAM_TYPE_UINT8, a_item_count = 61,
                         a_data = replicate 61 65\<rparr>\<rparr>"
  by (simp add: param_value_def roundtrip_def msg_create_def param_add_def lookup_simps
      verify_str_len_def verify_array_len_def lys_boot_def buf_push_def)

subsection \<open>Decoding frames the protocol forbids\<close>

text \<open>
  C2. On a frame with op PARAM or LOG, tag ARRAY and inner tag STRING or ARRAY,
  \<^verbatim>\<open>msg_parse\<close> does not return \<^verbatim>\<open>LYS_ERROR_INVALID_PARAM\<close>: \<^verbatim>\<open>param_parse\<close> takes the
  looked-up size 0 (\<^verbatim>\<open>LYS_PARAM_VARIABLE_SIZE\<close>) as the divisor of \<^verbatim>\<open>data_len % param_len\<close>.
\<close>

theorem msg_parse_array_of_variable_size:
  assumes "m_buf s ! 1 = 5 \<or> m_buf s ! 1 = 7" and "m_buf s ! 2 = 6"
    and "m_buf s ! 3 = 5 \<or> m_buf s ! 3 = 6"
  shows "msg_parse s = Inl DivisionByZero"
  using assms by (auto simp: msg_parse_def param_parse_def lookup_simps)

theorem msg_parse_array_of_variable_size_witness:
  "msg_complete ((lys_boot [] [])\<lparr>m_buf := [5, 5, 6, 5, 65] @ replicate 59 0, m_buf_index := 5\<rparr>)
   \<and> m_buf ((lys_boot [] [])\<lparr>m_buf := [5, 5, 6, 5, 65] @ replicate 59 0, m_buf_index := 5\<rparr>) ! 1 = 5
   \<and> m_buf ((lys_boot [] [])\<lparr>m_buf := [5, 5, 6, 5, 65] @ replicate 59 0, m_buf_index := 5\<rparr>) ! 2 = 6
   \<and> m_buf ((lys_boot [] [])\<lparr>m_buf := [5, 5, 6, 5, 65] @ replicate 59 0, m_buf_index := 5\<rparr>) ! 3 = 5
   \<and> msg_parse ((lys_boot [] [])\<lparr>m_buf := [5, 5, 6, 5, 65] @ replicate 59 0, m_buf_index := 5\<rparr>)
     = Inl DivisionByZero"
  using msg_parse_array_of_variable_size
    [of "(lys_boot [] [])\<lparr>m_buf := [5, 5, 6, 5, 65] @ replicate 59 0, m_buf_index := 5\<rparr>"]
  by (simp add: msg_complete_def)

text \<open>
  C3. On a frame with op PARAM or LOG, tag ARRAY, a scalar inner tag and length byte 4
  (no item bytes), \<^verbatim>\<open>msg_parse\<close> returns \<^verbatim>\<open>LYS_ERROR_SUCCESS\<close> and an array view of item
  count 0.
\<close>

theorem msg_parse_empty_array:
  assumes "m_buf s ! 0 = 4" and "m_buf s ! 1 = 5 \<or> m_buf s ! 1 = 7" and "m_buf s ! 2 = 6"
    and "lys_param_len_lookup (ucast (m_buf s ! 3)) = Inr n" and "n \<noteq> 0"
  shows "msg_parse s = Inr (LYS_ERROR_SUCCESS, ucast (m_buf s ! 1),
           Some \<lparr>param_type = LYS_PARAM_TYPE_ARRAY,
                 data = P_array \<lparr>a_param_type = ucast (m_buf s ! 3), a_item_count = 0,
                                 a_data = drop 4 (m_buf s)\<rparr>\<rparr>,
           s\<lparr>m_param := \<lparr>param_type = LYS_PARAM_TYPE_ARRAY,
                 data = P_array \<lparr>a_param_type = ucast (m_buf s ! 3), a_item_count = 0,
                                 a_data = drop 4 (m_buf s)\<rparr>\<rparr>,
             m_array := \<lparr>a_param_type = ucast (m_buf s ! 3), a_item_count = 0,
                          a_data = drop 4 (m_buf s)\<rparr>\<rparr>)"
  using assms by (auto simp: msg_parse_def param_parse_def Let_def)

theorem msg_parse_empty_array_witness:
  "msg_complete ((lys_boot [] [])\<lparr>m_buf := [4, 5, 6, 2] @ replicate 60 0, m_buf_index := 4\<rparr>)
   \<and> msg_parse ((lys_boot [] [])\<lparr>m_buf := [4, 5, 6, 2] @ replicate 60 0, m_buf_index := 4\<rparr>)
     = Inr (LYS_ERROR_SUCCESS, LYS_OP_PARAM,
         Some \<lparr>param_type = LYS_PARAM_TYPE_ARRAY,
               data = P_array \<lparr>a_param_type = LYS_PARAM_TYPE_UINT8, a_item_count = 0,
                               a_data = replicate 60 0\<rparr>\<rparr>,
         (lys_boot [] [])\<lparr>m_buf := [4, 5, 6, 2] @ replicate 60 0, m_buf_index := 4,
           m_param := \<lparr>param_type = LYS_PARAM_TYPE_ARRAY,
               data = P_array \<lparr>a_param_type = LYS_PARAM_TYPE_UINT8, a_item_count = 0,
                               a_data = replicate 60 0\<rparr>\<rparr>,
           m_array := \<lparr>a_param_type = LYS_PARAM_TYPE_UINT8, a_item_count = 0,
                               a_data = replicate 60 0\<rparr>\<rparr>)"
  using msg_parse_empty_array
    [of "(lys_boot [] [])\<lparr>m_buf := [4, 5, 6, 2] @ replicate 60 0, m_buf_index := 4\<rparr>" 1]
  by (simp add: msg_complete_def lookup_simps lys_boot_def)

text \<open>
  C4. On a frame with op PARAM or LOG and tag STRING, \<^verbatim>\<open>msg_parse\<close> returns
  \<^verbatim>\<open>LYS_ERROR_SUCCESS\<close> whatever the length byte is; the view starts at offset 3 and has
  length \<^verbatim>\<open>m_buf[0] - 3\<close> computed in 32 bits: 0 for a length byte 3, and wrapped around
  for a length byte below 3.
\<close>

theorem msg_parse_short_string:
  assumes "m_buf s ! 1 = 5 \<or> m_buf s ! 1 = 7" and "m_buf s ! 2 = 5"
  shows "msg_parse s = Inr (LYS_ERROR_SUCCESS, ucast (m_buf s ! 1),
           Some \<lparr>param_type = LYS_PARAM_TYPE_STRING,
                 data = P_str \<lparr>len = ucast (m_buf s ! 0) - 3, p_data = drop 3 (m_buf s)\<rparr>\<rparr>,
           s\<lparr>m_param := \<lparr>param_type = LYS_PARAM_TYPE_STRING,
                 data = P_str \<lparr>len = ucast (m_buf s ! 0) - 3, p_data = drop 3 (m_buf s)\<rparr>\<rparr>,
             m_str := \<lparr>len = ucast (m_buf s ! 0) - 3, p_data = drop 3 (m_buf s)\<rparr>\<rparr>)"
  using assms by (auto simp: msg_parse_def param_parse_def Let_def)

theorem msg_parse_short_string_witness:
  "msg_complete ((lys_boot [] [])\<lparr>m_buf := [3, 5, 5] @ replicate 61 0, m_buf_index := 3\<rparr>)
   \<and> msg_parse ((lys_boot [] [])\<lparr>m_buf := [3, 5, 5] @ replicate 61 0, m_buf_index := 3\<rparr>)
     = Inr (LYS_ERROR_SUCCESS, LYS_OP_PARAM,
         Some \<lparr>param_type = LYS_PARAM_TYPE_STRING,
               data = P_str \<lparr>len = 0, p_data = replicate 61 0\<rparr>\<rparr>,
         (lys_boot [] [])\<lparr>m_buf := [3, 5, 5] @ replicate 61 0, m_buf_index := 3,
           m_param := \<lparr>param_type = LYS_PARAM_TYPE_STRING,
               data = P_str \<lparr>len = 0, p_data = replicate 61 0\<rparr>\<rparr>,
           m_str := \<lparr>len = 0, p_data = replicate 61 0\<rparr>\<rparr>)
   \<and> msg_complete ((lys_boot [] [])\<lparr>m_buf := [2, 5, 5] @ replicate 61 0, m_buf_index := 3\<rparr>)
   \<and> msg_parse ((lys_boot [] [])\<lparr>m_buf := [2, 5, 5] @ replicate 61 0, m_buf_index := 3\<rparr>)
     = Inr (LYS_ERROR_SUCCESS, LYS_OP_PARAM,
         Some \<lparr>param_type = LYS_PARAM_TYPE_STRING,
               data = P_str \<lparr>len = 4294967295, p_data = replicate 61 0\<rparr>\<rparr>,
         (lys_boot [] [])\<lparr>m_buf := [2, 5, 5] @ replicate 61 0, m_buf_index := 3,
           m_param := \<lparr>param_type = LYS_PARAM_TYPE_STRING,
               data = P_str \<lparr>len = 4294967295, p_data = replicate 61 0\<rparr>\<rparr>,
           m_str := \<lparr>len = 4294967295, p_data = replicate 61 0\<rparr>\<rparr>)"
  using msg_parse_short_string
    [of "(lys_boot [] [])\<lparr>m_buf := [3, 5, 5] @ replicate 61 0, m_buf_index := 3\<rparr>"]
   msg_parse_short_string
    [of "(lys_boot [] [])\<lparr>m_buf := [2, 5, 5] @ replicate 61 0, m_buf_index := 3\<rparr>"]
  by (simp add: msg_complete_def lys_boot_def)

subsection \<open>What the helpers leave alone\<close>

lemma param_emit_keeps:
  "param_emit t src n s = Inr (err, s') \<Longrightarrow>
     m_state s' = m_state s \<and> m_error s' = m_error s \<and> rtt_up s' = rtt_up s
     \<and> rtt_accept s' = rtt_accept s \<and> rtt_down s' = rtt_down s"
  by (auto simp: param_emit_def Let_def buf_push_def split: if_splits)

lemma param_add_keeps:
  "param_add p s = Inr (err, s') \<Longrightarrow>
     m_state s' = m_state s \<and> m_error s' = m_error s \<and> rtt_up s' = rtt_up s
     \<and> rtt_accept s' = rtt_accept s \<and> rtt_down s' = rtt_down s"
  by (auto simp: param_add_def buf_push_def split: option.splits sum.splits if_splits lys_ptr.splits
      dest!: param_emit_keeps)

lemma msg_create_keeps:
  "msg_create op p s = Inr (err, s') \<Longrightarrow>
     m_state s' = m_state s \<and> m_error s' = m_error s \<and> rtt_up s' = rtt_up s
     \<and> rtt_accept s' = rtt_accept s \<and> rtt_down s' = rtt_down s"
  by (auto simp: msg_create_def Let_def buf_push_def split: if_splits sum.splits
      dest!: param_add_keeps)

lemma send_loop_keeps:
  "send_loop buf bound bw s = Inr s' \<Longrightarrow> m_state s' = m_state s \<and> m_error s' = m_error s"
proof (induction buf bound bw s rule: send_loop.induct)
  case (1 buf bound bytes_written s)
  show ?case
  proof (cases "bytes_written < bound")
    case False
    with "1.prems" show ?thesis
      by (simp add: send_loop.simps)
  next
    case True
    with "1.prems" obtain a as where a: "rtt_accept s = a # as"
      by (auto simp: send_loop.simps [of buf bound bytes_written s] split: list.splits)
    from True a "1.prems" "1.IH" [OF True a refl] show ?thesis
      by (simp add: send_loop.simps [of buf bound bytes_written s] Let_def)
  qed
qed

lemma msg_receive_loop_keeps:
  "msg_receive_loop s = Inr s' \<Longrightarrow>
     m_state s' = m_state s \<and> m_error s' = m_error s \<and> length (m_buf s') = length (m_buf s)"
proof (induction s rule: msg_receive_loop.induct)
  case (1 s)
  show ?case
  proof (cases "msg_complete s")
    case True
    with "1.prems" show ?thesis
      by (simp add: msg_receive_loop.simps)
  next
    case False
    let ?cap = "unat (LYS_MAX_MSG_LEN - ucast (m_buf_index s))"
    let ?i = "unat (m_buf_index s)"
    from False "1.prems" obtain c cs where c: "rtt_down s = c # cs" and cap: "?cap \<noteq> 0"
      and b: "\<not> length (m_buf s) < ?i + length (take ?cap c)"
      by (auto simp: msg_receive_loop.simps [of s] Let_def split: list.splits if_splits)
    let ?s1 = "s\<lparr>m_buf := take ?i (m_buf s) @ take ?cap c @ drop (?i + length (take ?cap c)) (m_buf s),
                 m_buf_index := m_buf_index s + of_nat (length (take ?cap c)),
                 rtt_down := (if length c \<le> ?cap then cs else drop ?cap c # cs)\<rparr>"
    from False c cap b "1.prems" have r: "msg_receive_loop ?s1 = Inr s'"
      by (simp add: msg_receive_loop.simps [of s] Let_def)
    from "1.IH" [OF False refl refl cap c refl refl b r] b show ?thesis
      by simp
  qed
qed

lemma param_parse_keeps:
  "param_parse s = Inr (err, s') \<Longrightarrow> m_state s' = m_state s \<and> m_error s' = m_error s"
  by (auto simp: param_parse_def Let_def split: if_splits sum.splits)

lemma msg_parse_keeps:
  "msg_parse s = Inr (err, op, p, s') \<Longrightarrow> m_state s' = m_state s \<and> m_error s' = m_error s"
  by (auto simp: msg_parse_def Let_def split: if_splits sum.splits dest!: param_parse_keeps)

lemma msg_parse_rtt:
  "msg_parse s = Inr (err, op, p, s') \<Longrightarrow>
     rtt_up s' = rtt_up s \<and> rtt_accept s' = rtt_accept s \<and> rtt_down s' = rtt_down s"
  by (auto simp: msg_parse_def param_parse_def Let_def split: if_splits sum.splits)

lemma msg_receive_keeps:
  "msg_receive s = Inr (err, op, p, s') \<Longrightarrow> m_state s' = m_state s \<and> m_error s' = m_error s"
  by (auto simp: msg_receive_def split: sum.splits dest!: msg_parse_keeps msg_receive_loop_keeps)

lemma wait_for_ack_keeps:
  "wait_for_ack s = Inr (err, s') \<Longrightarrow> m_state s' = m_state s \<and> m_error s' = m_error s"
  by (auto simp: wait_for_ack_def split: sum.splits if_splits dest!: msg_receive_keeps)

lemma msg_send_and_ack_keeps:
  "msg_send_and_ack op p s = Inr (err, s') \<Longrightarrow> m_state s' = m_state s \<and> m_error s' = m_error s"
  by (auto simp: msg_send_and_ack_def msg_send_def split: sum.splits if_splits
      dest!: msg_create_keeps send_loop_keeps wait_for_ack_keeps)

lemma msg_receive_and_ack_keeps:
  "msg_receive_and_ack s = Inr (err, op, p, s') \<Longrightarrow>
     m_state s' = m_state s \<and> m_error s' = m_error s"
  by (auto simp: msg_receive_and_ack_def ack_msg_send_def split: sum.splits if_splits
      dest!: msg_receive_keeps send_loop_keeps)

subsection \<open>The blocking loops\<close>

lemma send_loop_done: "\<not> bw < bound \<Longrightarrow> send_loop buf bound bw s = Inr s"
  by (simp add: send_loop.simps)

lemma send_loop_blocked:
  "bw < bound \<Longrightarrow> rtt_accept s = [] \<Longrightarrow> send_loop buf bound bw s = Inl Blocked"
  by (simp add: send_loop.simps)

lemma send_loop_accepts:
  assumes "bound \<le> length buf" and "bw \<le> bound"
  shows "send_loop buf bound bw s =
     (case accepts (rtt_accept s) (bound - bw) of
        None \<Rightarrow> Inl Blocked
      | Some as' \<Rightarrow>
          Inr (s\<lparr>rtt_up := rtt_up s @ take (bound - bw) (drop bw buf), rtt_accept := as'\<rparr>))"
  using assms
proof (induction "rtt_accept s" arbitrary: s bw)
  case Nil
  from Nil(1) have "rtt_accept s = []"
    by simp
  show ?case
  proof (cases "bw < bound")
    case True
    then obtain k where "bound - bw = Suc k"
      by (cases "bound - bw") auto
    with True \<open>rtt_accept s = []\<close> show ?thesis
      by (simp add: send_loop_blocked)
  next
    case False
    have "s\<lparr>rtt_accept := rtt_accept s\<rparr> = s"
      by simp
    with False show ?thesis
      by (simp add: send_loop_done)
  qed
next
  case (Cons a as)
  from Cons.hyps(2) have a: "rtt_accept s = a # as"
    by simp
  show ?case
  proof (cases "bw < bound")
    case False
    then show ?thesis
      by (simp add: send_loop.simps [of buf bound bw s])
  next
    case True
    define n where "n = min a (bound - bw)"
    define m where "m = bound - (bw + n)"
    let ?s1 = "s\<lparr>rtt_up := rtt_up s @ take n (drop bw buf), rtt_accept := as\<rparr>"
    from True obtain k where k: "bound - bw = Suc k"
      by (cases "bound - bw") auto
    have m: "m = Suc k - a"
      using k unfolding m_def n_def min_def by arith
    have nm: "n + m = bound - bw"
      using True unfolding m_def n_def min_def by arith
    have t: "take n (drop bw buf) @ take m (drop (bw + n) buf) = take (bound - bw) (drop bw buf)"
    proof -
      have "take n (drop bw buf) @ take m (drop n (drop bw buf)) = take (n + m) (drop bw buf)"
        by (simp only: take_add)
      moreover have "drop n (drop bw buf) = drop (bw + n) buf"
        by (simp add: add.commute)
      ultimately show ?thesis
        by (simp only: nm)
    qed
    have "send_loop buf bound bw s = send_loop buf bound (bw + n) ?s1"
      using True a by (simp add: send_loop.simps [of buf bound bw s] Let_def n_def)
    also have "\<dots> = (case accepts (rtt_accept ?s1) (bound - (bw + n)) of
        None \<Rightarrow> Inl Blocked
      | Some as' \<Rightarrow>
          Inr (?s1\<lparr>rtt_up := rtt_up ?s1 @ take (bound - (bw + n)) (drop (bw + n) buf),
                   rtt_accept := as'\<rparr>))"
      using Cons.prems True by (intro Cons.hyps(1)) (auto simp: min_def n_def)
    also have "\<dots> = (case accepts as m of
        None \<Rightarrow> Inl Blocked
      | Some as' \<Rightarrow>
          Inr (s\<lparr>rtt_up := rtt_up s @ take (bound - bw) (drop bw buf), rtt_accept := as'\<rparr>))"
      by (simp add: m_def [symmetric] t cong: option.case_cong)
    also have "accepts as m = accepts (rtt_accept s) (bound - bw)"
      by (simp add: a k m)
    finally show ?thesis .
  qed
qed

lemma msg_receive_loop_done: "msg_complete s \<Longrightarrow> msg_receive_loop s = Inr s"
  by (simp add: msg_receive_loop.simps)

lemma msg_receive_loop_step:
  assumes "\<not> msg_complete s" and "rtt_down s = c # cs" and "unat (m_buf_index s) = i"
    and "i + length c \<le> 64" and "length (m_buf s) = 64" and "i < 64"
  shows "msg_receive_loop s = msg_receive_loop
     (s\<lparr>m_buf := take i (m_buf s) @ c @ drop (i + length c) (m_buf s),
        m_buf_index := of_nat (i + length c), rtt_down := cs\<rparr>)"
proof -
  have u: "unat (ucast (m_buf_index s) :: u32) = i"
    using assms(3) by (simp add: unat_ucast_8_32)
  have "ucast (m_buf_index s) \<le> (64 :: u32)"
    using assms(6) u by (simp add: word_le_nat_alt)
  then have cap: "unat (LYS_MAX_MSG_LEN - ucast (m_buf_index s)) = 64 - i"
    using u by (simp add: unat_sub)
  have idx: "m_buf_index s + of_nat (length c) = of_nat (i + length c)"
    using assms(3) by (metis of_nat_add of_nat_unat ucast_id)
  have le: "length c \<le> 64 - i" "64 - i \<noteq> 0" "take (64 - i) c = c"
    "\<not> length (m_buf s) < i + length c"
    using assms(4,5,6) by simp_all
  show ?thesis
    using assms le
    by (subst msg_receive_loop.simps) (auto simp add: Let_def cap idx)
qed

lemma msg_receive_loop_delivers:
  assumes "delivers (rtt_down s) g = Some rest" and "g \<noteq> []"
    and "unat (m_buf_index s) = length got" and "take (length got) (m_buf s) = got"
    and "length (m_buf s) = 64" and "length (got @ g) \<le> 64"
    and "unat (hd (got @ g)) = length (got @ g)"
  shows "msg_receive_loop s =
     Inr (s\<lparr>m_buf := (got @ g) @ drop (length (got @ g)) (m_buf s),
            m_buf_index := of_nat (length (got @ g)), rtt_down := rest\<rparr>)"
  using assms
proof (induction "rtt_down s" arbitrary: s got g)
  case Nil
  then show ?case
    by (metis delivers.simps(1) option.distinct(1))
next
  case (Cons c cs)
  from Cons.hyps(2) have d: "rtt_down s = c # cs"
    by simp
  let ?f = "got @ g"
  have lt: "length got < length ?f"
    using Cons.prems(2) by simp
  have lt64: "length got < 64"
    using lt Cons.prems(6) by (simp del: length_append)
  have nc: "\<not> msg_complete s"
  proof (cases "got = []")
    case True
    with Cons.prems(3) have "m_buf_index s = 0"
      by (simp add: unat_eq_0)
    then show ?thesis
      by (simp add: msg_complete_def)
  next
    case False
    with Cons.prems(4,5) have "m_buf s ! 0 = hd ?f"
      by (metis hd_append2 hd_conv_nth length_greater_0_conv nth_take)
    with Cons.prems(7) lt Cons.prems(3) have "m_buf_index s < m_buf s ! 0"
      by (simp add: word_less_nat_alt)
    then show ?thesis
      by (simp add: msg_complete_def)
  qed
  let ?s1 = "s\<lparr>m_buf := take (length got) (m_buf s) @ c @ drop (length got + length c) (m_buf s),
               m_buf_index := of_nat (length got + length c), rtt_down := cs\<rparr>"
  from Cons.prems(1) d consider "c = g" "rest = cs"
    | "c \<noteq> g" "length c < length g" "take (length c) g = c" "delivers cs (drop (length c) g) = Some rest"
    by (auto split: if_splits)
  then show ?case
  proof cases
    case 1
    have step: "msg_receive_loop s = msg_receive_loop ?s1"
      using nc d Cons.prems(3,5,6) lt64 1
      by (intro msg_receive_loop_step) simp_all
    have l: "unat (of_nat (length got + length g) :: u8) = length got + length g"
      using Cons.prems(6) by (simp add: unat_of_nat del: of_nat_add)
    have h: "(take (length got) (m_buf s) @ g @ drop (length got + length g) (m_buf s)) ! 0 = hd ?f"
      using Cons.prems(2,4) by (cases got) (auto simp: hd_conv_nth nth_append)
    have "msg_complete ?s1"
      using 1 Cons.prems(2,7) l h
      by (simp add: msg_complete_def word_le_nat_alt word_less_nat_alt)
    then have "msg_receive_loop ?s1 = Inr ?s1"
      by (rule msg_receive_loop_done)
    with step 1 Cons.prems(4) show ?thesis
      by simp
  next
    case 2
    have step: "msg_receive_loop s = msg_receive_loop ?s1"
      using nc d Cons.prems(3,5,6) lt64 2
      by (intro msg_receive_loop_step) simp_all
    have g': "got @ g = (got @ c) @ drop (length c) g"
      using 2(3) by (metis append.assoc append_take_drop_id)
    have "msg_receive_loop ?s1 =
      Inr (?s1\<lparr>m_buf := ((got @ c) @ drop (length c) g)
                  @ drop (length ((got @ c) @ drop (length c) g)) (m_buf ?s1),
            m_buf_index := of_nat (length ((got @ c) @ drop (length c) g)), rtt_down := rest\<rparr>)"
    proof (rule Cons.hyps(1))
      show "cs = rtt_down ?s1" by simp
      show "delivers (rtt_down ?s1) (drop (length c) g) = Some rest"
        using 2(4) by simp
      show "drop (length c) g \<noteq> []"
        using 2(2) by simp
      show "unat (m_buf_index ?s1) = length (got @ c)"
        using Cons.prems(6) 2(2) by (simp add: unat_of_nat del: of_nat_add)
      show "take (length (got @ c)) (m_buf ?s1) = got @ c"
        using Cons.prems(4,5,6) 2(2) by simp
      show "length (m_buf ?s1) = 64"
        using Cons.prems(5,6) 2(2) by simp
      show "length ((got @ c) @ drop (length c) g) \<le> 64"
        unfolding g' [symmetric] by (rule Cons.prems(6))
      show "unat (hd ((got @ c) @ drop (length c) g)) = length ((got @ c) @ drop (length c) g)"
        unfolding g' [symmetric] by (rule Cons.prems(7))
    qed
    moreover have "drop (length (got @ g)) (m_buf ?s1) = drop (length (got @ g)) (m_buf s)"
      using Cons.prems(5,6) 2(2) by (simp add: add.commute)
    ultimately show ?thesis
      unfolding step g' [symmetric] by simp
  qed
qed

subsection \<open>Handshakes that go through\<close>

lemma msg_send_accepts:
  assumes "unat (m_buf_index s) \<le> length (m_buf s)"
    and "accepts (rtt_accept s) (unat (m_buf_index s)) = Some acc"
  shows "msg_send s = Inr (s\<lparr>rtt_up := rtt_up s @ frame s, rtt_accept := acc\<rparr>)"
  using assms by (simp add: msg_send_def send_loop_accepts frame_def)

lemma ack_msg_send_accepts:
  assumes "accepts (rtt_accept s) 2 = Some acc"
  shows "ack_msg_send s = Inr (s\<lparr>rtt_up := rtt_up s @ m_ack_buf, rtt_accept := acc\<rparr>)"
  using assms by (simp add: ack_msg_send_def send_loop_accepts)

lemma msg_receive_delivers:
  assumes "delivers (rtt_down s) f = Some rest" and "f \<noteq> []" and "length (m_buf s) = 64"
    and "length f \<le> 64" and "unat (hd f) = length f"
  shows "msg_receive s = msg_parse
     (s\<lparr>m_buf := f @ drop (length f) (m_buf s), m_buf_index := of_nat (length f),
        rtt_down := rest\<rparr>)"
proof -
  have "msg_receive_loop (s\<lparr>m_buf_index := 0\<rparr>) =
     Inr (s\<lparr>m_buf_index := 0\<rparr>\<lparr>m_buf := ([] @ f) @ drop (length ([] @ f)) (m_buf (s\<lparr>m_buf_index := 0\<rparr>)),
            m_buf_index := of_nat (length ([] @ f)), rtt_down := rest\<rparr>)"
    using assms by (intro msg_receive_loop_delivers) simp_all
  then show ?thesis
    by (simp add: msg_receive_def)
qed

lemma wait_for_ack_delivers:
  assumes "delivers (rtt_down s) m_ack_buf = Some rest" and "length (m_buf s) = 64"
  shows "wait_for_ack s = Inr (LYS_ERROR_SUCCESS,
     s\<lparr>m_buf := m_ack_buf @ drop 2 (m_buf s), m_buf_index := 2, rtt_down := rest\<rparr>)"
proof -
  have "msg_receive s = msg_parse
     (s\<lparr>m_buf := m_ack_buf @ drop (length m_ack_buf) (m_buf s),
        m_buf_index := of_nat (length m_ack_buf), rtt_down := rest\<rparr>)"
    using assms by (intro msg_receive_delivers) simp_all
  moreover have "length m_ack_buf = 2"
    by simp
  ultimately have "msg_receive s = msg_parse
     (s\<lparr>m_buf := m_ack_buf @ drop 2 (m_buf s), m_buf_index := 2, rtt_down := rest\<rparr>)"
    by (simp only: of_nat_numeral)
  then show ?thesis
    by (simp add: wait_for_ack_def msg_parse_def)
qed

lemma msg_send_and_ack_ok:
  assumes c: "msg_create op p s = Inr (LYS_ERROR_SUCCESS, s1)" and l: "length (m_buf s) = 64"
    and a: "accepts (rtt_accept s) (length (frame s1)) = Some acc"
    and d: "delivers (rtt_down s) m_ack_buf = Some rest"
  shows "msg_send_and_ack op p s = Inr (LYS_ERROR_SUCCESS,
     s1\<lparr>m_buf := m_ack_buf @ drop 2 (m_buf s1), m_buf_index := 2,
        rtt_up := rtt_up s @ frame s1, rtt_accept := acc, rtt_down := rest\<rparr>)"
proof -
  note f = msg_create_frame [OF c l]
  note k = msg_create_keeps [OF c]
  have n: "length (frame s1) = unat (m_buf_index s1)"
    using f by (simp add: frame_def)
  have "msg_send s1 = Inr (s1\<lparr>rtt_up := rtt_up s1 @ frame s1, rtt_accept := acc\<rparr>)"
    using f a k n by (intro msg_send_accepts) simp_all
  moreover have "wait_for_ack (s1\<lparr>rtt_up := rtt_up s1 @ frame s1, rtt_accept := acc\<rparr>)
    = Inr (LYS_ERROR_SUCCESS,
       s1\<lparr>rtt_up := rtt_up s1 @ frame s1, rtt_accept := acc\<rparr>
         \<lparr>m_buf := m_ack_buf @ drop 2 (m_buf (s1\<lparr>rtt_up := rtt_up s1 @ frame s1, rtt_accept := acc\<rparr>)),
          m_buf_index := 2, rtt_down := rest\<rparr>)"
    using f d k by (intro wait_for_ack_delivers) simp_all
  ultimately show ?thesis
    using c k by (simp add: msg_send_and_ack_def)
qed

lemma msg_create_simple:
  assumes "op = LYS_OP_UNKNOWN \<or> op = LYS_OP_INIT \<or> op = LYS_OP_START \<or> op = LYS_OP_RESULT
         \<or> op = LYS_OP_FINISHED \<or> op = LYS_OP_ACK" and "length (m_buf s) = 64"
  shows "msg_create op p s = Inr (LYS_ERROR_SUCCESS,
     s\<lparr>m_buf := [2, ucast op] @ drop 2 (m_buf s), m_buf_index := 2\<rparr>)
     \<and> frame (s\<lparr>m_buf := [2, ucast op] @ drop 2 (m_buf s), m_buf_index := 2\<rparr>) = [2, ucast op]"
proof -
  obtain b0 b1 bs where b: "m_buf s = b0 # b1 # bs"
    using assms(2) by (cases "m_buf s"; cases "tl (m_buf s)") auto
  show ?thesis
    using assms(1) by (auto simp: msg_create_def buf_push_def b frame_def)
qed

lemma msg_send_and_ack_simple:
  assumes "op = LYS_OP_UNKNOWN \<or> op = LYS_OP_INIT \<or> op = LYS_OP_START \<or> op = LYS_OP_RESULT
         \<or> op = LYS_OP_FINISHED \<or> op = LYS_OP_ACK" and l: "length (m_buf s) = 64"
    and a: "accepts (rtt_accept s) 2 = Some acc"
    and d: "delivers (rtt_down s) m_ack_buf = Some rest"
  shows "msg_send_and_ack op p s = Inr (LYS_ERROR_SUCCESS,
     s\<lparr>m_buf := m_ack_buf @ drop 2 (m_buf s), m_buf_index := 2,
        rtt_up := rtt_up s @ [2, ucast op], rtt_accept := acc, rtt_down := rest\<rparr>)"
proof -
  note c = msg_create_simple [OF assms(1) l, of p]
  from c have a': "accepts (rtt_accept s)
      (length (frame (s\<lparr>m_buf := [2, ucast op] @ drop 2 (m_buf s), m_buf_index := 2\<rparr>))) = Some acc"
    using a by (simp add: numeral_2_eq_2)
  show ?thesis
    using msg_send_and_ack_ok [OF c [THEN conjunct1] l a' d] c by simp
qed

subsection \<open>Evaluating concrete sessions\<close>

lemmas lys_eval = lys_init_def lys_param_wait_def init_begin_def lys_finish_def result_begin_def lys_param_send_def
  lys_error_send_def lys_log_send_def
  msg_send_and_ack_def msg_receive_and_ack_def msg_create_def lys_boot_def param_add_def param_emit_def
  verify_str_len_def verify_array_len_def lookup_simps
  buf_push_def msg_send_def ack_msg_send_def wait_for_ack_def msg_receive_def
  send_loop.simps msg_receive_loop.simps msg_complete_def Let_def msg_parse_def param_parse_def error_def
  param_store_def memcpy_def str_copy_def array_copy_def

lemma buf64: "replicate 64 x = x # x # x # x # x # x # x # x # replicate 56 x"
  by (simp add: eval_nat_numeral)

lemma run_param_wait_start:
  "lys_run [Param_wait] (lys_init (lys_boot [2, 2, 2, 2] [[2, 6], [2, 2], [2, 6], [2, 6]]))
   = Inr ((lys_boot [2, 2] [[2, 6], [2, 6]])
       \<lparr>m_buf := [2, 2, 0, 0, 0, 0, 0, 0] @ replicate 56 0, m_buf_index := 2,
        m_state := LYS_STATE_RUNNING, rtt_up := [2, 1, 2, 6]\<rparr>)"
  by (simp add: lys_eval buf64)

lemma finish_after_start:
  "lys_finish ((lys_boot [2, 2] [[2, 6], [2, 6]])
       \<lparr>m_buf := [2, 2, 0, 0, 0, 0, 0, 0] @ replicate 56 0, m_buf_index := 2,
        m_state := LYS_STATE_RUNNING, rtt_up := [2, 1, 2, 6]\<rparr>)
   = Inr (LYS_ERROR_SUCCESS, (lys_boot [] [])
       \<lparr>m_buf := [2, 6, 0, 0, 0, 0, 0, 0] @ replicate 56 0, m_buf_index := 2,
        m_state := LYS_STATE_RESULT, rtt_up := [2, 1, 2, 6, 2, 3, 2, 4]\<rparr>)"
  by (simp add: lys_eval buf64)

subsection \<open>The state machine\<close>

lemma lys_param_wait_state:
  "lys_param_wait s = Inr (err, p, ps, s') \<Longrightarrow> m_state s \<noteq> LYS_STATE_FINISHED \<Longrightarrow>
     m_state s' \<noteq> LYS_STATE_FINISHED"
  by (auto simp: lys_param_wait_def init_begin_def error_def split: sum.splits if_splits
      dest!: msg_send_and_ack_keeps msg_receive_and_ack_keeps)

lemma lys_params_receive_state:
  "lys_params_receive ps s = Inr (err, ps', s') \<Longrightarrow> m_state s \<noteq> LYS_STATE_FINISHED \<Longrightarrow>
     m_state s' \<noteq> LYS_STATE_FINISHED"
proof (induction ps arbitrary: s err ps' s')
  case Nil
  then show ?case
    by (auto simp: error_def split: sum.splits if_splits dest!: lys_param_wait_state)
next
  case (Cons p ps)
  from Cons.prems(1) obtain e r b s1 where w: "lys_param_wait s = Inr (e, r, b, s1)"
    by (auto split: sum.splits)
  from lys_param_wait_state [OF w Cons.prems(2)] have s1: "m_state s1 \<noteq> LYS_STATE_FINISHED" .
  from Cons.prems(1) w consider "s' = s1"
    | e2 ps2 where "lys_params_receive ps s1 = Inr (e2, ps2, s')"
    by (auto split: sum.splits if_splits option.splits)
  then show ?case
  proof cases
    case 1
    with s1 show ?thesis by simp
  next
    case 2
    then show ?thesis
      using s1 by (rule Cons.IH)
  qed
qed

lemma result_begin_state:
  "result_begin s = Inr (err, s') \<Longrightarrow> m_state s \<noteq> LYS_STATE_FINISHED \<Longrightarrow>
     m_state s' \<noteq> LYS_STATE_FINISHED"
  by (auto simp: result_begin_def error_def split: sum.splits if_splits
      dest!: msg_send_and_ack_keeps)

lemma lys_param_send_state:
  "lys_param_send p s = Inr (err, s') \<Longrightarrow> m_state s \<noteq> LYS_STATE_FINISHED \<Longrightarrow>
     m_state s' \<noteq> LYS_STATE_FINISHED"
  by (auto simp: lys_param_send_def error_def split: sum.splits if_splits
      dest!: msg_send_and_ack_keeps result_begin_state)

lemma lys_finish_state:
  "lys_finish s = Inr (err, s') \<Longrightarrow> m_state s \<noteq> LYS_STATE_FINISHED \<Longrightarrow>
     m_state s' \<noteq> LYS_STATE_FINISHED"
  by (auto simp: lys_finish_def error_def split: sum.splits if_splits
      dest!: msg_send_and_ack_keeps result_begin_state)

lemma lys_results_send_state:
  "lys_results_send ps s = Inr (err, s') \<Longrightarrow> m_state s \<noteq> LYS_STATE_FINISHED \<Longrightarrow>
     m_state s' \<noteq> LYS_STATE_FINISHED"
proof (induction ps arbitrary: s)
  case Nil
  then show ?case
    by (auto dest: lys_finish_state)
next
  case (Cons p ps)
  from Cons.prems(1) obtain e s1 where w: "lys_param_send (Some p) s = Inr (e, s1)"
    by (auto split: sum.splits)
  from lys_param_send_state [OF w Cons.prems(2)] have s1: "m_state s1 \<noteq> LYS_STATE_FINISHED" .
  from Cons.prems(1) w consider "s' = s1" | "lys_results_send ps s1 = Inr (err, s')"
    by (auto split: if_splits)
  then show ?case
  proof cases
    case 1
    with s1 show ?thesis by simp
  next
    case 2
    then show ?thesis
      using s1 by (rule Cons.IH)
  qed
qed

lemma lys_error_send_state:
  "lys_error_send s = Inr (err, s') \<Longrightarrow> m_state s' = LYS_STATE_UNKNOWN \<and> m_error s'"
  by (auto simp: lys_error_send_def error_def msg_send_def split: sum.splits if_splits
      dest!: msg_create_keeps send_loop_keeps wait_for_ack_keeps)

lemma lys_log_send_state:
  "lys_log_send p s = Inr (err, s') \<Longrightarrow> m_state s \<noteq> LYS_STATE_FINISHED \<Longrightarrow>
     m_state s' \<noteq> LYS_STATE_FINISHED"
  by (auto simp: lys_log_send_def error_def Let_def split: sum.splits if_splits
      dest!: msg_send_and_ack_keeps)

lemma lys_call_state:
  "lys_call c s = Inr (err, s') \<Longrightarrow> m_state s \<noteq> LYS_STATE_FINISHED \<Longrightarrow>
     m_state s' \<noteq> LYS_STATE_FINISHED"
proof (cases c)
  case Init
  then show "lys_call c s = Inr (err, s') \<Longrightarrow> ?thesis"
    by (auto simp: lys_init_def)
next
  case Param_wait
  then show "lys_call c s = Inr (err, s') \<Longrightarrow> m_state s \<noteq> LYS_STATE_FINISHED \<Longrightarrow> ?thesis"
    by (cases "lys_param_wait s") (auto dest: lys_param_wait_state)
next
  case (Params_receive ps)
  then show "lys_call c s = Inr (err, s') \<Longrightarrow> m_state s \<noteq> LYS_STATE_FINISHED \<Longrightarrow> ?thesis"
    by (cases "lys_params_receive ps s") (auto dest: lys_params_receive_state)
next
  case (Param_send p)
  then show "lys_call c s = Inr (err, s') \<Longrightarrow> m_state s \<noteq> LYS_STATE_FINISHED \<Longrightarrow> ?thesis"
    by (auto dest: lys_param_send_state)
next
  case (Results_send ps)
  then show "lys_call c s = Inr (err, s') \<Longrightarrow> m_state s \<noteq> LYS_STATE_FINISHED \<Longrightarrow> ?thesis"
    by (auto dest: lys_results_send_state)
next
  case Finish
  then show "lys_call c s = Inr (err, s') \<Longrightarrow> m_state s \<noteq> LYS_STATE_FINISHED \<Longrightarrow> ?thesis"
    by (auto dest: lys_finish_state)
next
  case Error_send
  then show "lys_call c s = Inr (err, s') \<Longrightarrow> ?thesis"
    by (auto dest: lys_error_send_state)
next
  case (Log_send p)
  then show "lys_call c s = Inr (err, s') \<Longrightarrow> m_state s \<noteq> LYS_STATE_FINISHED \<Longrightarrow> ?thesis"
    by (auto dest: lys_log_send_state)
qed

lemma lys_run_state:
  "lys_run cs s = Inr s' \<Longrightarrow> m_state s \<noteq> LYS_STATE_FINISHED \<Longrightarrow>
     m_state s' \<noteq> LYS_STATE_FINISHED"
proof (induction cs arbitrary: s)
  case Nil
  then show ?case by simp
next
  case (Cons c cs)
  from Cons.prems(1) obtain e s1 where w: "lys_call c s = Inr (e, s1)"
    and r: "lys_run cs s1 = Inr s'"
    by (auto split: sum.splits)
  from lys_call_state [OF w Cons.prems(2)] have "m_state s1 \<noteq> LYS_STATE_FINISHED" .
  with r show ?case
    by (rule Cons.IH)
qed

lemma lys_finish_success:
  "lys_finish s = Inr (LYS_ERROR_SUCCESS, s') \<Longrightarrow> m_state s' = LYS_STATE_RESULT"
  by (auto simp: lys_finish_def split: sum.splits if_splits)

text \<open>
  C9. The session state never equals \<^verbatim>\<open>LYS_STATE_FINISHED\<close>: whatever program of public
  operations runs after \<^verbatim>\<open>lys_init\<close>, against whatever host, the state it reaches is
  not \<^verbatim>\<open>LYS_STATE_FINISHED\<close>; and a \<^verbatim>\<open>lys_finish\<close> that returns success leaves the state
  \<^verbatim>\<open>LYS_STATE_RESULT\<close>.
\<close>

theorem state_never_finished:
  "(lys_run cs (lys_init s0) = Inr s \<longrightarrow> m_state s \<noteq> LYS_STATE_FINISHED)
   \<and> (lys_finish s = Inr (LYS_ERROR_SUCCESS, s') \<longrightarrow> m_state s' = LYS_STATE_RESULT)"
  by (auto dest: lys_run_state lys_finish_success simp: lys_init_def)

theorem state_never_finished_witness:
  "lys_run [Param_wait] (lys_init (lys_boot [2, 2, 2, 2] [[2, 6], [2, 2], [2, 6], [2, 6]]))
   = Inr ((lys_boot [2, 2] [[2, 6], [2, 6]])
       \<lparr>m_buf := [2, 2, 0, 0, 0, 0, 0, 0] @ replicate 56 0, m_buf_index := 2,
        m_state := LYS_STATE_RUNNING, rtt_up := [2, 1, 2, 6]\<rparr>)
   \<and> m_state ((lys_boot [2, 2] [[2, 6], [2, 6]])
       \<lparr>m_buf := [2, 2, 0, 0, 0, 0, 0, 0] @ replicate 56 0, m_buf_index := 2,
        m_state := LYS_STATE_RUNNING, rtt_up := [2, 1, 2, 6]\<rparr>) \<noteq> LYS_STATE_FINISHED
   \<and> lys_finish ((lys_boot [2, 2] [[2, 6], [2, 6]])
       \<lparr>m_buf := [2, 2, 0, 0, 0, 0, 0, 0] @ replicate 56 0, m_buf_index := 2,
        m_state := LYS_STATE_RUNNING, rtt_up := [2, 1, 2, 6]\<rparr>)
     = Inr (LYS_ERROR_SUCCESS, (lys_boot [] [])
       \<lparr>m_buf := [2, 6, 0, 0, 0, 0, 0, 0] @ replicate 56 0, m_buf_index := 2,
        m_state := LYS_STATE_RESULT, rtt_up := [2, 1, 2, 6, 2, 3, 2, 4]\<rparr>)
   \<and> m_state ((lys_boot [] [])
       \<lparr>m_buf := [2, 6, 0, 0, 0, 0, 0, 0] @ replicate 56 0, m_buf_index := 2,
        m_state := LYS_STATE_RESULT, rtt_up := [2, 1, 2, 6, 2, 3, 2, 4]\<rparr>) = LYS_STATE_RESULT"
  using run_param_wait_start finish_after_start
    state_never_finished [of "[Param_wait]" "lys_boot [2, 2, 2, 2] [[2, 6], [2, 2], [2, 6], [2, 6]]"
      "(lys_boot [2, 2] [[2, 6], [2, 6]])
       \<lparr>m_buf := [2, 2, 0, 0, 0, 0, 0, 0] @ replicate 56 0, m_buf_index := 2,
        m_state := LYS_STATE_RUNNING, rtt_up := [2, 1, 2, 6]\<rparr>"
      "(lys_boot [] [])
       \<lparr>m_buf := [2, 6, 0, 0, 0, 0, 0, 0] @ replicate 56 0, m_buf_index := 2,
        m_state := LYS_STATE_RESULT, rtt_up := [2, 1, 2, 6, 2, 3, 2, 4]\<rparr>"]
  by simp

subsection \<open>Failures of the public operations\<close>

lemma param_emit_err: "param_emit t src n s = Inr (err, s') \<Longrightarrow> err = LYS_ERROR_SUCCESS"
  by (auto simp: param_emit_def Let_def split: if_splits)

lemma param_add_err:
  "param_add p s = Inr (err, s') \<Longrightarrow> err \<noteq> LYS_ERROR_SUCCESS \<Longrightarrow>
     err = LYS_ERROR_INVALID_PARAM \<and> s' = s"
  by (auto simp: param_add_def split: option.splits sum.splits if_splits lys_ptr.splits
      dest: param_emit_err lookup_err verify_str_len_err verify_array_len_err)

lemma msg_create_err:
  "msg_create op p s = Inr (err, s') \<Longrightarrow> err \<noteq> LYS_ERROR_SUCCESS \<Longrightarrow>
     err = LYS_ERROR_INVALID_PARAM"
  by (auto simp: msg_create_def Let_def split: sum.splits if_splits dest: param_add_err)

lemma msg_send_and_ack_invalid:
  "msg_create op p s = Inr (err, s1) \<Longrightarrow> err \<noteq> LYS_ERROR_SUCCESS \<Longrightarrow>
     msg_send_and_ack op p s = Inr (LYS_ERROR_INVALID_PARAM, s1)"
  by (frule (1) msg_create_err) (simp add: msg_send_and_ack_def)

text \<open>
  C5 (amended). An argument that fails validation during encoding, before any byte is
  written to the transport (null parameter, zero-length string or array, over-long
  payload, nested composite, undefined tag): \<^verbatim>\<open>lys_param_send\<close> called in state RESULT,
  \<^verbatim>\<open>lys_results_send\<close> called in state RESULT with such a first entry, and
  \<^verbatim>\<open>lys_log_send\<close> called in state UNKNOWN or RUNNING return \<^verbatim>\<open>LYS_ERROR_INVALID_PARAM\<close>
  and leave the transport untouched, but they set the sticky error flag and force the
  state to UNKNOWN: every failure of \<^verbatim>\<open>msg_send_and_ack\<close> ends in \<^verbatim>\<open>error()\<close>.
\<close>

theorem validation_failure_is_fatal:
  "(m_state s = LYS_STATE_RESULT \<and> msg_create LYS_OP_PARAM p s = Inr (err, s1)
      \<and> err \<noteq> LYS_ERROR_SUCCESS \<longrightarrow>
      (\<exists>s'. lys_param_send p s = Inr (LYS_ERROR_INVALID_PARAM, s')
         \<and> rtt_up s' = rtt_up s \<and> rtt_accept s' = rtt_accept s \<and> rtt_down s' = rtt_down s
         \<and> m_error s' \<and> m_state s' = LYS_STATE_UNKNOWN))
   \<and> (m_state s = LYS_STATE_RESULT \<and> msg_create LYS_OP_PARAM (Some q) s = Inr (err, s1)
      \<and> err \<noteq> LYS_ERROR_SUCCESS \<longrightarrow>
      (\<exists>s'. lys_results_send (q # qs) s = Inr (LYS_ERROR_INVALID_PARAM, s')
         \<and> rtt_up s' = rtt_up s \<and> rtt_accept s' = rtt_accept s \<and> rtt_down s' = rtt_down s
         \<and> m_error s' \<and> m_state s' = LYS_STATE_UNKNOWN))
   \<and> ((m_state s = LYS_STATE_UNKNOWN \<or> m_state s = LYS_STATE_RUNNING)
      \<and> verify_str_len p_str = Inl e \<longrightarrow>
      (\<exists>s'. lys_log_send p_str s = Inr (LYS_ERROR_INVALID_PARAM, s')
         \<and> rtt_up s' = rtt_up s \<and> rtt_accept s' = rtt_accept s \<and> rtt_down s' = rtt_down s
         \<and> m_error s' \<and> m_state s' = LYS_STATE_UNKNOWN))"
proof (intro conjI impI)
  assume a: "m_state s = LYS_STATE_RESULT \<and> msg_create LYS_OP_PARAM p s = Inr (err, s1)
      \<and> err \<noteq> LYS_ERROR_SUCCESS"
  then have "lys_param_send p s = Inr (LYS_ERROR_INVALID_PARAM, error s1)"
    by (simp add: lys_param_send_def result_begin_def msg_send_and_ack_invalid)
  with a msg_create_keeps [of LYS_OP_PARAM p s err s1]
  show "\<exists>s'. lys_param_send p s = Inr (LYS_ERROR_INVALID_PARAM, s')
         \<and> rtt_up s' = rtt_up s \<and> rtt_accept s' = rtt_accept s \<and> rtt_down s' = rtt_down s
         \<and> m_error s' \<and> m_state s' = LYS_STATE_UNKNOWN"
    by (simp add: error_def)
next
  assume a: "m_state s = LYS_STATE_RESULT \<and> msg_create LYS_OP_PARAM (Some q) s = Inr (err, s1)
      \<and> err \<noteq> LYS_ERROR_SUCCESS"
  then have "lys_results_send (q # qs) s = Inr (LYS_ERROR_INVALID_PARAM, error s1)"
    by (simp add: lys_param_send_def result_begin_def msg_send_and_ack_invalid)
  with a msg_create_keeps [of LYS_OP_PARAM "Some q" s err s1]
  show "\<exists>s'. lys_results_send (q # qs) s = Inr (LYS_ERROR_INVALID_PARAM, s')
         \<and> rtt_up s' = rtt_up s \<and> rtt_accept s' = rtt_accept s \<and> rtt_down s' = rtt_down s
         \<and> m_error s' \<and> m_state s' = LYS_STATE_UNKNOWN"
    by (simp add: error_def)
next
  assume a: "(m_state s = LYS_STATE_UNKNOWN \<or> m_state s = LYS_STATE_RUNNING)
      \<and> verify_str_len p_str = Inl e"
  let ?p = "\<lparr>param_type = LYS_PARAM_TYPE_STRING,
             data = (case p_str of None \<Rightarrow> NULL | Some str \<Rightarrow> P_str str)\<rparr>"
  let ?s1 = "s\<lparr>m_param := ?p\<rparr>"
  let ?s2 = "buf_push (ucast LYS_OP_LOG) (?s1\<lparr>m_buf_index := 1\<rparr>)"
  from a have e: "e = LYS_ERROR_INVALID_PARAM"
    by (auto dest: verify_str_len_err)
  have n: "verify_str_len None = Inl LYS_ERROR_INVALID_PARAM"
    by (simp add: verify_str_len_def)
  have "param_add (Some ?p) ?s2 = Inr (LYS_ERROR_INVALID_PARAM, ?s2)"
    using a e n by (cases p_str) (simp_all add: param_add_def lookup_simps)
  then have "msg_create LYS_OP_LOG (Some ?p) ?s1 = Inr (LYS_ERROR_INVALID_PARAM, ?s2)"
    by (simp add: msg_create_def)
  then have "msg_send_and_ack LYS_OP_LOG (Some ?p) ?s1 = Inr (LYS_ERROR_INVALID_PARAM, ?s2)"
    by (simp add: msg_send_and_ack_def)
  with a have "lys_log_send p_str s = Inr (LYS_ERROR_INVALID_PARAM, error ?s2)"
    by (auto simp: lys_log_send_def Let_def)
  then show "\<exists>s'. lys_log_send p_str s = Inr (LYS_ERROR_INVALID_PARAM, s')
         \<and> rtt_up s' = rtt_up s \<and> rtt_accept s' = rtt_accept s \<and> rtt_down s' = rtt_down s
         \<and> m_error s' \<and> m_state s' = LYS_STATE_UNKNOWN"
    by (simp add: error_def buf_push_def)
qed

theorem validation_failure_is_fatal_witness:
  "m_state ((lys_boot [] [])\<lparr>m_state := LYS_STATE_RESULT\<rparr>) = LYS_STATE_RESULT
   \<and> msg_create LYS_OP_PARAM (Some \<lparr>param_type = LYS_PARAM_TYPE_STRING, data = P_str \<lparr>len = 0, p_data = []\<rparr>\<rparr>)
        ((lys_boot [] [])\<lparr>m_state := LYS_STATE_RESULT\<rparr>)
      = Inr (LYS_ERROR_INVALID_PARAM,
          (lys_boot [] [])\<lparr>m_state := LYS_STATE_RESULT, m_buf := (replicate 64 0)[1 := 5], m_buf_index := 2\<rparr>)
   \<and> (\<exists>s'. lys_param_send (Some \<lparr>param_type = LYS_PARAM_TYPE_STRING, data = P_str \<lparr>len = 0, p_data = []\<rparr>\<rparr>)
          ((lys_boot [] [])\<lparr>m_state := LYS_STATE_RESULT\<rparr>) = Inr (LYS_ERROR_INVALID_PARAM, s')
        \<and> rtt_up s' = [] \<and> rtt_accept s' = [] \<and> rtt_down s' = []
        \<and> m_error s' \<and> m_state s' = LYS_STATE_UNKNOWN)
   \<and> (\<exists>s'. lys_results_send [\<lparr>param_type = LYS_PARAM_TYPE_STRING, data = P_str \<lparr>len = 0, p_data = []\<rparr>\<rparr>]
          ((lys_boot [] [])\<lparr>m_state := LYS_STATE_RESULT\<rparr>) = Inr (LYS_ERROR_INVALID_PARAM, s')
        \<and> rtt_up s' = [] \<and> rtt_accept s' = [] \<and> rtt_down s' = []
        \<and> m_error s' \<and> m_state s' = LYS_STATE_UNKNOWN)
   \<and> m_state (lys_boot [] []) = LYS_STATE_UNKNOWN
   \<and> verify_str_len None = Inl LYS_ERROR_INVALID_PARAM
   \<and> (\<exists>s'. lys_log_send None (lys_boot [] []) = Inr (LYS_ERROR_INVALID_PARAM, s')
        \<and> rtt_up s' = [] \<and> rtt_accept s' = [] \<and> rtt_down s' = []
        \<and> m_error s' \<and> m_state s' = LYS_STATE_UNKNOWN)"
proof -
  have c: "msg_create LYS_OP_PARAM (Some \<lparr>param_type = LYS_PARAM_TYPE_STRING, data = P_str \<lparr>len = 0, p_data = []\<rparr>\<rparr>)
        ((lys_boot [] [])\<lparr>m_state := LYS_STATE_RESULT\<rparr>)
      = Inr (LYS_ERROR_INVALID_PARAM,
          (lys_boot [] [])\<lparr>m_state := LYS_STATE_RESULT, m_buf := (replicate 64 0)[1 := 5], m_buf_index := 2\<rparr>)"
    by (simp add: msg_create_def param_add_def lookup_simps verify_str_len_def lys_boot_def buf_push_def)
  have v: "verify_str_len None = Inl LYS_ERROR_INVALID_PARAM"
    by (simp add: verify_str_len_def)
  show ?thesis
    using c v
      validation_failure_is_fatal [of "(lys_boot [] [])\<lparr>m_state := LYS_STATE_RESULT\<rparr>"
        "Some \<lparr>param_type = LYS_PARAM_TYPE_STRING, data = P_str \<lparr>len = 0, p_data = []\<rparr>\<rparr>"
        LYS_ERROR_INVALID_PARAM
        "(lys_boot [] [])\<lparr>m_state := LYS_STATE_RESULT, m_buf := (replicate 64 0)[1 := 5], m_buf_index := 2\<rparr>"
        "\<lparr>param_type = LYS_PARAM_TYPE_STRING, data = P_str \<lparr>len = 0, p_data = []\<rparr>\<rparr>" "[]"]
      validation_failure_is_fatal [of "lys_boot [] []" None LYS_ERROR_INVALID_PARAM
        "lys_boot [] []" "\<lparr>param_type = LYS_PARAM_TYPE_STRING, data = NULL\<rparr>" "[]" None LYS_ERROR_INVALID_PARAM]
    by (simp add: lys_boot_def)
qed

theorem validation_failure_counterexample:
  "lys_run [Param_wait, Finish] (lys_init (lys_boot [2, 2, 2, 2] [[2, 6], [2, 2], [2, 6], [2, 6]]))
   = Inr ((lys_boot [] [])
       \<lparr>m_buf := [2, 6, 0, 0, 0, 0, 0, 0] @ replicate 56 0, m_buf_index := 2,
        m_state := LYS_STATE_RESULT, rtt_up := [2, 1, 2, 6, 2, 3, 2, 4]\<rparr>)
   \<and> lys_param_send None ((lys_boot [] [])
       \<lparr>m_buf := [2, 6, 0, 0, 0, 0, 0, 0] @ replicate 56 0, m_buf_index := 2,
        m_state := LYS_STATE_RESULT, rtt_up := [2, 1, 2, 6, 2, 3, 2, 4]\<rparr>)
     = Inr (LYS_ERROR_INVALID_PARAM, (lys_boot [] [])
       \<lparr>m_buf := [2, 5, 0, 0, 0, 0, 0, 0] @ replicate 56 0, m_buf_index := 2,
        m_state := LYS_STATE_UNKNOWN, m_error := True, rtt_up := [2, 1, 2, 6, 2, 3, 2, 4]\<rparr>)
   \<and> lys_log_send (Some \<lparr>len = 0, p_data = []\<rparr>)
       ((lys_boot [2, 2] [[2, 6], [2, 6]])
         \<lparr>m_buf := [2, 2, 0, 0, 0, 0, 0, 0] @ replicate 56 0, m_buf_index := 2,
          m_state := LYS_STATE_RUNNING, rtt_up := [2, 1, 2, 6]\<rparr>)
     = Inr (LYS_ERROR_INVALID_PARAM, (lys_boot [2, 2] [[2, 6], [2, 6]])
         \<lparr>m_buf := [2, 7, 0, 0, 0, 0, 0, 0] @ replicate 56 0, m_buf_index := 2,
          m_state := LYS_STATE_UNKNOWN, m_error := True, rtt_up := [2, 1, 2, 6],
          m_param := \<lparr>param_type = LYS_PARAM_TYPE_STRING, data = P_str \<lparr>len = 0, p_data = []\<rparr>\<rparr>\<rparr>)"
  by (simp add: lys_eval buf64)

lemma init_begin_cases:
  assumes "init_begin s = Inr (e, s1)"
  shows "(e \<noteq> LYS_ERROR_SUCCESS \<and> m_error s1 \<and> m_state s1 = LYS_STATE_UNKNOWN)
    \<or> (e = LYS_ERROR_SUCCESS \<and> s1 = s \<and> \<not> (m_state s = LYS_STATE_UNKNOWN \<and> \<not> m_error s))
    \<or> (e = LYS_ERROR_SUCCESS \<and> m_state s1 = LYS_STATE_WAIT_FOR_START \<and> \<not> m_error s1
       \<and> \<not> m_error s \<and> m_state s = LYS_STATE_UNKNOWN)"
proof (cases "m_state s = LYS_STATE_UNKNOWN \<and> \<not> m_error s")
  case False
  with assms show ?thesis
    by (auto simp: init_begin_def)
next
  case True
  with assms obtain e1 s2 where a: "msg_send_and_ack LYS_OP_INIT None s = Inr (e1, s2)"
    by (auto simp: init_begin_def split: sum.splits)
  from msg_send_and_ack_keeps [OF a] True assms a show ?thesis
    by (auto simp: init_begin_def error_def split: if_splits)
qed

lemma lys_param_wait_cases:
  assumes "lys_param_wait s = Inr (err, r, b, s1)"
  shows "(err \<noteq> LYS_ERROR_SUCCESS
      \<and> ((m_error s1 \<and> m_state s1 = LYS_STATE_UNKNOWN)
         \<or> (s1 = s \<and> m_state s \<noteq> LYS_STATE_WAIT_FOR_START)))
    \<or> (err = LYS_ERROR_SUCCESS \<and> m_error s1 = m_error s
      \<and> m_state s1 = (if b then LYS_STATE_WAIT_FOR_START else LYS_STATE_RUNNING))"
proof -
  from assms obtain e s0 where i: "init_begin s = Inr (e, s0)"
    by (auto simp: lys_param_wait_def split: sum.splits)
  note c = init_begin_cases [OF i]
  show ?thesis
  proof (cases "e = LYS_ERROR_SUCCESS \<and> m_state s0 = LYS_STATE_WAIT_FOR_START")
    case False
    with assms i c show ?thesis
      by (auto simp: lys_param_wait_def split: if_splits)
  next
    case True
    with assms i obtain e2 op p s2 where a: "msg_receive_and_ack s0 = Inr (e2, op, p, s2)"
      by (auto simp: lys_param_wait_def split: sum.splits)
    from msg_receive_and_ack_keeps [OF a] have k: "m_state s2 = m_state s0" "m_error s2 = m_error s0"
      by simp_all
    from True c have m: "m_error s0 = m_error s"
      by auto
    from assms i a True have "(err, r, b, s1) =
       (if e2 \<noteq> LYS_ERROR_SUCCESS then (e2, p, False, error s2)
        else if op = LYS_OP_START
          then (LYS_ERROR_SUCCESS, p, False, s2\<lparr>m_state := LYS_STATE_RUNNING\<rparr>)
        else if op = LYS_OP_PARAM then (LYS_ERROR_SUCCESS, p, True, s2)
        else (LYS_ERROR_INVALID_STATE, p, False, error s2))"
      by (simp add: lys_param_wait_def split: if_splits)
    with k m True show ?thesis
      by (auto simp: error_def split: if_splits)
  qed
qed


lemma str_copy_err: "str_copy lhs rhs = Inr (err, lhs') \<Longrightarrow> err \<noteq> LYS_ERROR_SUCCESS \<Longrightarrow>
  err = LYS_ERROR_INVALID_PARAM"
  by (auto simp: str_copy_def split: if_splits sum.splits)

lemma array_copy_err: "array_copy lhs rhs = Inr (err, lhs') \<Longrightarrow> err \<noteq> LYS_ERROR_SUCCESS \<Longrightarrow>
  err = LYS_ERROR_INVALID_PARAM"
  by (auto simp: array_copy_def Let_def split: if_splits sum.splits dest: lookup_err)

lemma param_store_err: "param_store p r = Inr (err, p') \<Longrightarrow> err \<noteq> LYS_ERROR_SUCCESS \<Longrightarrow>
  err = LYS_ERROR_INVALID_PARAM"
  by (auto simp: param_store_def Let_def split: if_splits sum.splits lys_ptr.splits
      dest: lookup_err str_copy_err array_copy_err)

text \<open>One round of the loop of \<^verbatim>\<open>lys_params_receive\<close>: it goes on, or it returns.\<close>

lemma lys_params_receive_round:
  assumes "lys_params_receive (p # ps) s = Inr (err, ps', s')"
    and "lys_param_wait s = Inr (e, r, b, s1)"
  shows "(e = LYS_ERROR_SUCCESS \<and> b
      \<and> (\<exists>ps2. lys_params_receive ps s1 = Inr (err, ps2, s')))
    \<or> (s' = s1 \<and> (e \<noteq> LYS_ERROR_SUCCESS \<and> err = e
        \<or> e = LYS_ERROR_SUCCESS \<and> err = LYS_ERROR_INVALID_PARAM))"
proof (cases "e = LYS_ERROR_SUCCESS \<and> b")
  case False
  with assms show ?thesis
    by (auto split: if_splits)
next
  case True
  with assms obtain rv where rv: "r = Some rv"
    by (cases r) auto
  show ?thesis
  proof (cases "param_type p = param_type rv")
    case False
    with assms True rv show ?thesis
      by auto
  next
    case t: True
    with assms True rv obtain e2 p' where st: "param_store p rv = Inr (e2, p')"
      by (auto split: sum.splits)
    show ?thesis
    proof (cases "e2 = LYS_ERROR_SUCCESS")
      case False
      with assms True rv t st param_store_err [OF st] show ?thesis
        by auto
    next
      case e2: True
      with assms True rv t st show ?thesis
        by (auto split: sum.splits)
    qed
  qed
qed

lemma lys_params_receive_fail_waiting:
  assumes "lys_params_receive ps s = Inr (err, ps', s')" and "err \<noteq> LYS_ERROR_SUCCESS"
    and "m_state s = LYS_STATE_WAIT_FOR_START"
  shows "(m_error s' \<and> m_state s' = LYS_STATE_UNKNOWN)
    \<or> (err = LYS_ERROR_INVALID_PARAM \<and> m_error s' = m_error s
       \<and> (m_state s' = LYS_STATE_WAIT_FOR_START \<or> m_state s' = LYS_STATE_RUNNING))"
  using assms
proof (induction ps arbitrary: s err ps' s')
  case Nil
  from Nil(1) obtain e r b s1 where w: "lys_param_wait s = Inr (e, r, b, s1)"
    by (auto split: sum.splits)
  from lys_param_wait_cases [OF w] Nil w show ?case
    by (auto simp: error_def split: if_splits)
next
  case (Cons p ps)
  from Cons.prems(1) obtain e r b s1 where w: "lys_param_wait s = Inr (e, r, b, s1)"
    by (auto split: sum.splits)
  note c = lys_param_wait_cases [OF w]
  from lys_params_receive_round [OF Cons.prems(1) w]
  consider ps2 where "e = LYS_ERROR_SUCCESS" "b" "lys_params_receive ps s1 = Inr (err, ps2, s')"
    | "s' = s1" "e \<noteq> LYS_ERROR_SUCCESS" "err = e"
    | "s' = s1" "e = LYS_ERROR_SUCCESS" "err = LYS_ERROR_INVALID_PARAM"
    by auto
  then show ?case
  proof cases
    case 1
    with c have s1: "m_state s1 = LYS_STATE_WAIT_FOR_START" "m_error s1 = m_error s"
      by auto
    from Cons.IH [OF 1(3) Cons.prems(2) s1(1)] s1(2) show ?thesis
      by simp
  next
    case 2
    with c Cons.prems(3) show ?thesis
      by auto
  next
    case 3
    with c show ?thesis
      by (auto split: if_splits)
  qed
qed

lemma lys_params_receive_fail:
  assumes "lys_params_receive ps s = Inr (err, ps', s')" and "err \<noteq> LYS_ERROR_SUCCESS"
  shows "(m_error s' \<and> m_state s' = LYS_STATE_UNKNOWN) \<or> s' = s
    \<or> (err = LYS_ERROR_INVALID_PARAM \<and> m_error s' = m_error s
       \<and> (m_state s' = LYS_STATE_WAIT_FOR_START \<or> m_state s' = LYS_STATE_RUNNING))"
proof -
  from assms(1) obtain e r b s1 where w: "lys_param_wait s = Inr (e, r, b, s1)"
    by (cases ps) (auto split: sum.splits)
  note c = lys_param_wait_cases [OF w]
  show ?thesis
  proof (cases ps)
    case Nil
    with assms w c show ?thesis
      by (auto simp: error_def split: if_splits)
  next
    case (Cons p qs)
    from lys_params_receive_round [OF assms(1) [unfolded Cons] w]
    consider ps2 where "e = LYS_ERROR_SUCCESS" "b" "lys_params_receive qs s1 = Inr (err, ps2, s')"
      | "s' = s1" "e \<noteq> LYS_ERROR_SUCCESS" "err = e"
      | "s' = s1" "e = LYS_ERROR_SUCCESS" "err = LYS_ERROR_INVALID_PARAM"
      by auto
    then show ?thesis
    proof cases
      case 1
      with c have s1: "m_state s1 = LYS_STATE_WAIT_FOR_START" "m_error s1 = m_error s"
        by auto
      from lys_params_receive_fail_waiting [OF 1(3) assms(2) s1(1)] s1(2) show ?thesis
        by auto
    next
      case 2
      with c show ?thesis
        by auto
    next
      case 3
      with c show ?thesis
        by (auto split: if_splits)
    qed
  qed
qed


lemma result_begin_cases:
  assumes "result_begin s = Inr (e, s1)"
  shows "(e \<noteq> LYS_ERROR_SUCCESS \<and> m_error s1 \<and> m_state s1 = LYS_STATE_UNKNOWN)
    \<or> (e = LYS_ERROR_SUCCESS \<and> s1 = s \<and> m_state s \<noteq> LYS_STATE_RUNNING)
    \<or> (e = LYS_ERROR_SUCCESS \<and> m_state s1 = LYS_STATE_RESULT \<and> m_error s1 = m_error s
       \<and> m_state s = LYS_STATE_RUNNING)"
proof (cases "m_state s = LYS_STATE_RUNNING")
  case False
  with assms show ?thesis
    by (auto simp: result_begin_def)
next
  case True
  with assms obtain e1 s2 where a: "msg_send_and_ack LYS_OP_RESULT None s = Inr (e1, s2)"
    by (auto simp: result_begin_def split: sum.splits)
  from msg_send_and_ack_keeps [OF a] True assms a show ?thesis
    by (auto simp: result_begin_def error_def split: if_splits)
qed

lemma lys_param_send_cases:
  assumes "lys_param_send p s = Inr (err, s')"
  shows "(err \<noteq> LYS_ERROR_SUCCESS
      \<and> ((m_error s' \<and> m_state s' = LYS_STATE_UNKNOWN)
         \<or> (s' = s \<and> m_state s \<noteq> LYS_STATE_RESULT \<and> m_state s \<noteq> LYS_STATE_RUNNING)))
    \<or> (err = LYS_ERROR_SUCCESS \<and> m_error s' = m_error s \<and> m_state s' = LYS_STATE_RESULT)"
proof -
  from assms obtain e s0 where i: "result_begin s = Inr (e, s0)"
    by (auto simp: lys_param_send_def split: sum.splits)
  note c = result_begin_cases [OF i]
  show ?thesis
  proof (cases "e = LYS_ERROR_SUCCESS \<and> m_state s0 = LYS_STATE_RESULT")
    case False
    with assms i c show ?thesis
      by (auto simp: lys_param_send_def split: if_splits)
  next
    case True
    with assms i obtain e2 s2 where a: "msg_send_and_ack LYS_OP_PARAM p s0 = Inr (e2, s2)"
      by (auto simp: lys_param_send_def split: sum.splits)
    from msg_send_and_ack_keeps [OF a] have k: "m_state s2 = m_state s0" "m_error s2 = m_error s0"
      by simp_all
    from True c have m: "m_error s0 = m_error s"
      by auto
    from assms i a True have "(err, s') =
       (if e2 \<noteq> LYS_ERROR_SUCCESS then (e2, error s2) else (LYS_ERROR_SUCCESS, s2))"
      by (simp add: lys_param_send_def split: if_splits)
    with k m True show ?thesis
      by (auto simp: error_def split: if_splits)
  qed
qed

lemma lys_finish_cases:
  assumes "lys_finish s = Inr (err, s')"
  shows "(err \<noteq> LYS_ERROR_SUCCESS
      \<and> ((m_error s' \<and> m_state s' = LYS_STATE_UNKNOWN)
         \<or> (s' = s \<and> m_state s \<noteq> LYS_STATE_RESULT \<and> m_state s \<noteq> LYS_STATE_RUNNING)))
    \<or> (err = LYS_ERROR_SUCCESS \<and> m_error s' = m_error s \<and> m_state s' = LYS_STATE_RESULT)"
proof -
  from assms obtain e s0 where i: "result_begin s = Inr (e, s0)"
    by (auto simp: lys_finish_def split: sum.splits)
  note c = result_begin_cases [OF i]
  show ?thesis
  proof (cases "e = LYS_ERROR_SUCCESS \<and> m_state s0 = LYS_STATE_RESULT")
    case False
    with assms i c show ?thesis
      by (auto simp: lys_finish_def split: if_splits)
  next
    case True
    with assms i obtain e2 s2 where a: "msg_send_and_ack LYS_OP_FINISHED None s0 = Inr (e2, s2)"
      by (auto simp: lys_finish_def split: sum.splits)
    from msg_send_and_ack_keeps [OF a] have k: "m_state s2 = m_state s0" "m_error s2 = m_error s0"
      by simp_all
    from True c have m: "m_error s0 = m_error s"
      by auto
    from assms i a True have "(err, s') =
       (if e2 \<noteq> LYS_ERROR_SUCCESS then (e2, error s2)
        else (LYS_ERROR_SUCCESS, s2\<lparr>m_state := LYS_STATE_RESULT\<rparr>))"
      by (simp add: lys_finish_def split: if_splits)
    with k m True show ?thesis
      by (auto simp: error_def split: if_splits)
  qed
qed

lemma lys_results_send_fail_result:
  assumes "lys_results_send ps s = Inr (err, s')" and "err \<noteq> LYS_ERROR_SUCCESS"
    and "m_state s = LYS_STATE_RESULT"
  shows "m_error s' \<and> m_state s' = LYS_STATE_UNKNOWN"
  using assms
proof (induction ps arbitrary: s)
  case Nil
  with lys_finish_cases [of s err s'] show ?case
    by auto
next
  case (Cons p ps)
  from Cons.prems(1) obtain e s1 where w: "lys_param_send (Some p) s = Inr (e, s1)"
    by (auto split: sum.splits)
  note c = lys_param_send_cases [OF w]
  show ?case
  proof (cases "e = LYS_ERROR_SUCCESS")
    case True
    with Cons.prems(1) w have n: "lys_results_send ps s1 = Inr (err, s')"
      by simp
    from True c have "m_state s1 = LYS_STATE_RESULT"
      by auto
    with n Cons.prems(2) show ?thesis
      by (rule Cons.IH)
  next
    case False
    with Cons.prems w c show ?thesis
      by auto
  qed
qed

lemma lys_results_send_fail:
  assumes "lys_results_send ps s = Inr (err, s')" and "err \<noteq> LYS_ERROR_SUCCESS"
  shows "(m_error s' \<and> m_state s' = LYS_STATE_UNKNOWN) \<or> s' = s"
proof (cases ps)
  case Nil
  with assms lys_finish_cases [of s err s'] show ?thesis
    by auto
next
  case (Cons p qs)
  with assms(1) obtain e s1 where w: "lys_param_send (Some p) s = Inr (e, s1)"
    by (auto split: sum.splits)
  note c = lys_param_send_cases [OF w]
  show ?thesis
  proof (cases "e = LYS_ERROR_SUCCESS")
    case True
    with assms(1) w Cons have n: "lys_results_send qs s1 = Inr (err, s')"
      by simp
    from True c have "m_state s1 = LYS_STATE_RESULT"
      by auto
    with n assms(2) show ?thesis
      by (auto dest: lys_results_send_fail_result)
  next
    case False
    with assms w c Cons show ?thesis
      by auto
  qed
qed

lemma lys_log_send_fail:
  assumes "lys_log_send p s = Inr (err, s')" and "err \<noteq> LYS_ERROR_SUCCESS"
  shows "(m_error s' \<and> m_state s' = LYS_STATE_UNKNOWN) \<or> s' = s"
  using assms
  by (auto simp: lys_log_send_def Let_def error_def split: if_splits sum.splits)

text \<open>The loop of \<^verbatim>\<open>lys_params_receive\<close> and the wait that follows it.\<close>

lemma lys_params_receive_loop:
  "lys_params_receive (qs @ ps) s =
     (case params_loop qs s of
        Inl f \<Rightarrow> Inl f
      | Inr (err, qs', s1) \<Rightarrow>
          if err \<noteq> LYS_ERROR_SUCCESS then Inr (err, qs' @ ps, s1)
          else
            (case lys_params_receive ps s1 of
               Inl f \<Rightarrow> Inl f
             | Inr (err, ps', s2) \<Rightarrow> Inr (err, qs' @ ps', s2)))"
proof (induction qs arbitrary: s)
  case Nil
  show ?case
    by (simp split: sum.splits)
next
  case (Cons q qs)
  show ?case
    by (simp add: Cons.IH split: sum.splits option.splits)
qed

lemma params_loop_keeps:
  "params_loop qs s = Inr (LYS_ERROR_SUCCESS, qs', s1) \<Longrightarrow> m_error s1 = m_error s"
proof (induction qs arbitrary: s qs')
  case Nil
  then show ?case
    by simp
next
  case (Cons q qs)
  from Cons.prems obtain e r b s0 where w: "lys_param_wait s = Inr (e, r, b, s0)"
    by (auto split: sum.splits)
  with Cons.prems have e: "e = LYS_ERROR_SUCCESS"
    by (auto split: if_splits)
  from Cons.prems w e obtain ps' where "params_loop qs s0 = Inr (LYS_ERROR_SUCCESS, ps', s1)"
    by (auto split: if_splits option.splits sum.splits)
  from Cons.IH [OF this] lys_param_wait_cases [OF w] e show ?case
    by simp
qed

lemma send_loop_up:
  "send_loop buf bound bw s = Inr s' \<Longrightarrow>
     rtt_up s' = rtt_up s @ take (bound - bw) (drop bw buf) \<and> rtt_down s' = rtt_down s"
proof (induction buf bound bw s rule: send_loop.induct)
  case (1 buf bound bytes_written s)
  show ?case
  proof (cases "bytes_written < bound")
    case False
    with "1.prems" show ?thesis
      by (simp add: send_loop.simps)
  next
    case True
    with "1.prems" obtain a as where a: "rtt_accept s = a # as"
      by (auto simp: send_loop.simps [of buf bound bytes_written s] split: list.splits)
    let ?n = "min a (bound - bytes_written)"
    from True a "1.prems" have r: "send_loop buf bound (bytes_written + ?n)
        (s\<lparr>rtt_up := rtt_up s @ take ?n (drop bytes_written buf), rtt_accept := as\<rparr>) = Inr s'"
      by (simp add: send_loop.simps [of buf bound bytes_written s] Let_def)
    from "1.IH" [OF True a refl r]
    have i: "rtt_up s' = (rtt_up s @ take ?n (drop bytes_written buf))
        @ take (bound - (bytes_written + ?n)) (drop (bytes_written + ?n) buf)"
      and d: "rtt_down s' = rtt_down s"
      by simp_all
    have e: "?n + (bound - bytes_written - ?n) = bound - bytes_written"
      by arith
    have "take (?n + (bound - bytes_written - ?n)) (drop bytes_written buf)
       = take ?n (drop bytes_written buf)
         @ take (bound - bytes_written - ?n) (drop ?n (drop bytes_written buf))"
      by (rule take_add)
    then have "take (bound - bytes_written) (drop bytes_written buf)
       = take ?n (drop bytes_written buf)
         @ take (bound - bytes_written - ?n) (drop ?n (drop bytes_written buf))"
      unfolding e .
    with i d show ?thesis
      by (simp add: add.commute)
  qed
qed

lemma ack_msg_send_up:
  "ack_msg_send s = Inr s' \<Longrightarrow> rtt_up s' = rtt_up s @ m_ack_buf \<and> rtt_down s' = rtt_down s"
  by (auto simp: ack_msg_send_def dest!: send_loop_up)

lemma msg_receive_loop_up:
  "msg_receive_loop s = Inr s' \<Longrightarrow> rtt_up s' = rtt_up s"
proof (induction s rule: msg_receive_loop.induct)
  case (1 s)
  show ?case
  proof (cases "msg_complete s")
    case True
    with "1.prems" show ?thesis
      by (simp add: msg_receive_loop.simps)
  next
    case False
    let ?cap = "unat (LYS_MAX_MSG_LEN - ucast (m_buf_index s))"
    let ?i = "unat (m_buf_index s)"
    from False "1.prems" obtain c cs where c: "rtt_down s = c # cs" and cap: "?cap \<noteq> 0"
      and b: "\<not> length (m_buf s) < ?i + length (take ?cap c)"
      by (auto simp: msg_receive_loop.simps [of s] Let_def split: list.splits if_splits)
    let ?s1 = "s\<lparr>m_buf := take ?i (m_buf s) @ take ?cap c @ drop (?i + length (take ?cap c)) (m_buf s),
                 m_buf_index := m_buf_index s + of_nat (length (take ?cap c)),
                 rtt_down := (if length c \<le> ?cap then cs else drop ?cap c # cs)\<rparr>"
    from False c cap b "1.prems" have r: "msg_receive_loop ?s1 = Inr s'"
      by (simp add: msg_receive_loop.simps [of s] Let_def)
    from "1.IH" [OF False refl refl cap c refl refl b r] show ?thesis
      by simp
  qed
qed

lemma msg_receive_up:
  "msg_receive s = Inr (err, op, p, s') \<Longrightarrow> rtt_up s' = rtt_up s"
  by (auto simp: msg_receive_def split: sum.splits dest!: msg_parse_rtt msg_receive_loop_up)

lemma msg_receive_and_ack_up:
  "msg_receive_and_ack s = Inr (LYS_ERROR_SUCCESS, op, p, s') \<Longrightarrow>
     rtt_up s' = rtt_up s @ m_ack_buf"
  by (auto simp: msg_receive_and_ack_def split: sum.splits if_splits
      dest!: msg_receive_up ack_msg_send_up)

lemma msg_send_and_ack_up:
  "msg_send_and_ack op p s = Inr (err, s') \<Longrightarrow> \<exists>u. rtt_up s' = rtt_up s @ u"
  by (auto simp: msg_send_and_ack_def msg_send_def wait_for_ack_def split: sum.splits if_splits
      dest!: msg_create_keeps send_loop_up msg_receive_up)

lemma init_begin_up:
  "init_begin s = Inr (err, s') \<Longrightarrow> \<exists>u. rtt_up s' = rtt_up s @ u"
  by (auto simp: init_begin_def error_def split: sum.splits if_splits dest!: msg_send_and_ack_up)

lemma lys_param_wait_up:
  assumes "lys_param_wait s = Inr (LYS_ERROR_SUCCESS, r, b, s')"
  shows "\<exists>u. rtt_up s' = rtt_up s @ u @ m_ack_buf"
proof -
  from assms obtain s0 where i: "init_begin s = Inr (LYS_ERROR_SUCCESS, s0)"
    by (auto simp: lys_param_wait_def split: sum.splits if_splits)
  then obtain u where u: "rtt_up s0 = rtt_up s @ u"
    by (auto dest: init_begin_up)
  from assms i obtain op p s2 where a: "msg_receive_and_ack s0 = Inr (LYS_ERROR_SUCCESS, op, p, s2)"
    and s': "s' = s2 \<or> s' = s2\<lparr>m_state := LYS_STATE_RUNNING\<rparr>"
    by (auto simp: lys_param_wait_def split: sum.splits if_splits)
  from msg_receive_and_ack_up [OF a] u s' show ?thesis
    by auto
qed

text \<open>The three returns of the loop that do not call \<^verbatim>\<open>error\<close>.\<close>

lemma lys_params_receive_soft:
  assumes l: "params_loop qs s = Inr (LYS_ERROR_SUCCESS, qs', s1)"
    and w: "lys_param_wait s1 = Inr (LYS_ERROR_SUCCESS, r, b, s2)"
    and c: "\<not> b \<or> (\<exists>rv. r = Some rv \<and> (param_type p \<noteq> param_type rv
             \<or> (\<exists>e p'. param_store p rv = Inr (e, p') \<and> e \<noteq> LYS_ERROR_SUCCESS)))"
  shows "lys_call (Params_receive (qs @ p # ps)) s = Inr (LYS_ERROR_INVALID_PARAM, s2)
    \<and> m_error s2 = m_error s
    \<and> m_state s2 = (if b then LYS_STATE_WAIT_FOR_START else LYS_STATE_RUNNING)
    \<and> (\<exists>u. rtt_up s2 = rtt_up s1 @ u @ m_ack_buf)"
proof -
  have "\<exists>ps'. lys_params_receive (p # ps) s1 = Inr (LYS_ERROR_INVALID_PARAM, ps', s2)"
  proof (cases b)
    case False
    with w show ?thesis
      by simp
  next
    case True
    with c obtain rv where rv: "r = Some rv"
      and m: "param_type p \<noteq> param_type rv
        \<or> (\<exists>e p'. param_store p rv = Inr (e, p') \<and> e \<noteq> LYS_ERROR_SUCCESS)"
      by auto
    show ?thesis
    proof (cases "param_type p \<noteq> param_type rv")
      case True
      with w \<open>b\<close> rv show ?thesis
        by simp
    next
      case False
      with m obtain e p' where st: "param_store p rv = Inr (e, p')" "e \<noteq> LYS_ERROR_SUCCESS"
        by auto
      from param_store_err [OF st] have "e = LYS_ERROR_INVALID_PARAM" .
      with w \<open>b\<close> rv False st show ?thesis
        by simp
    qed
  qed
  then have "lys_call (Params_receive (qs @ p # ps)) s = Inr (LYS_ERROR_INVALID_PARAM, s2)"
    by (auto simp: lys_params_receive_loop l)
  moreover from lys_param_wait_cases [OF w] params_loop_keeps [OF l]
  have "m_error s2 = m_error s"
    "m_state s2 = (if b then LYS_STATE_WAIT_FOR_START else LYS_STATE_RUNNING)"
    by simp_all
  ultimately show ?thesis
    using lys_param_wait_up [OF w] by simp
qed

lemma lys_params_receive_fail_paths:
  assumes "lys_params_receive ps s = Inr (err, ps', s')" and "err \<noteq> LYS_ERROR_SUCCESS"
  shows "(m_error s' \<and> m_state s' = LYS_STATE_UNKNOWN)
    \<or> (s' = s \<and> m_state s \<noteq> LYS_STATE_WAIT_FOR_START)
    \<or> (\<exists>qs p rest qs' s1 r b. ps = qs @ p # rest
          \<and> params_loop qs s = Inr (LYS_ERROR_SUCCESS, qs', s1)
          \<and> lys_param_wait s1 = Inr (LYS_ERROR_SUCCESS, r, b, s')
          \<and> (\<not> b \<or> (\<exists>rv. r = Some rv \<and> (param_type p \<noteq> param_type rv
                \<or> (\<exists>e p'. param_store p rv = Inr (e, p') \<and> e \<noteq> LYS_ERROR_SUCCESS)))))"
  using assms
proof (induction ps arbitrary: s err ps' s')
  case Nil
  from Nil(1) obtain e r b s1 where w: "lys_param_wait s = Inr (e, r, b, s1)"
    by (auto split: sum.splits)
  from lys_param_wait_cases [OF w] Nil w show ?case
    by (auto simp: error_def split: if_splits)
next
  case (Cons p ps)
  from Cons.prems(1) obtain e r b s1 where w: "lys_param_wait s = Inr (e, r, b, s1)"
    by (auto split: sum.splits)
  note c = lys_param_wait_cases [OF w]
  let ?soft = "\<lambda>p r b. \<not> b \<or> (\<exists>rv. r = Some rv \<and> (param_type p \<noteq> param_type rv
      \<or> (\<exists>e p'. param_store p rv = Inr (e, p') \<and> e \<noteq> LYS_ERROR_SUCCESS)))"
  have here: ?case if "s' = s1" "e = LYS_ERROR_SUCCESS" "?soft p r b"
  proof -
    have "p # ps = [] @ p # ps" "params_loop [] s = Inr (LYS_ERROR_SUCCESS, [], s)"
      by simp_all
    with w that show ?thesis
      by blast
  qed
  show ?case
  proof (cases "e = LYS_ERROR_SUCCESS")
    case False
    with Cons.prems(1) w have "s' = s1"
      by simp
    with c False show ?thesis
      by auto
  next
    case e: True
    show ?thesis
    proof (cases b)
      case False
      with Cons.prems(1) w e have "s' = s1"
        by simp
      with e False show ?thesis
        by (intro here) simp_all
    next
      case b: True
      with Cons.prems(1) w e obtain rv where rv: "r = Some rv"
        by (cases r) auto
      show ?thesis
      proof (cases "param_type p = param_type rv")
        case False
        with Cons.prems(1) w e b rv have "s' = s1"
          by simp
        with e rv False show ?thesis
          by (intro here) simp_all
      next
        case t: True
        with Cons.prems(1) w e b rv obtain e2 p' where st: "param_store p rv = Inr (e2, p')"
          by (auto split: sum.splits)
        show ?thesis
        proof (cases "e2 = LYS_ERROR_SUCCESS")
          case False
          with Cons.prems(1) w e b rv t st have "s' = s1"
            by simp
          with e rv st False show ?thesis
            by (intro here) auto
        next
          case e2: True
          with Cons.prems(1) w e b rv t st obtain ps2
            where n: "lys_params_receive ps s1 = Inr (err, ps2, s')"
            by (auto split: sum.splits)
          from c e b have s1: "m_state s1 = LYS_STATE_WAIT_FOR_START"
            by simp
          from Cons.IH [OF n Cons.prems(2)] s1
          consider "m_error s' \<and> m_state s' = LYS_STATE_UNKNOWN"
            | qs p0 rest qs' s2 r0 b0 where "ps = qs @ p0 # rest"
              "params_loop qs s1 = Inr (LYS_ERROR_SUCCESS, qs', s2)"
              "lys_param_wait s2 = Inr (LYS_ERROR_SUCCESS, r0, b0, s')" "?soft p0 r0 b0"
            by blast
          then show ?thesis
          proof cases
            case 1
            then show ?thesis
              by simp
          next
            case 2
            have "p # ps = (p # qs) @ p0 # rest"
              using 2(1) by simp
            moreover have "params_loop (p # qs) s = Inr (LYS_ERROR_SUCCESS, p' # qs', s2)"
              using w e b rv t st e2 2(2) by simp
            ultimately show ?thesis
              using 2(3,4) by blast
          qed
        qed
      qed
    qed
  qed
qed

text \<open>
  C6 (amended). A public operation that returns an error has set the sticky error flag
  and forced the state to UNKNOWN, or it has changed nothing at all (the state, the
  buffer and the transport are as before the call: the failure came before any wire
  I/O), with one exception: \<^verbatim>\<open>lys_params_receive\<close> returns \<^verbatim>\<open>LYS_ERROR_INVALID_PARAM\<close>
  with the sticky error flag as it was and the state as \<^verbatim>\<open>lys_param_wait\<close> left it when,
  in some round of its loop (the rounds before it having gone through), the frame
  that \<^verbatim>\<open>lys_param_wait\<close> received and ACKed is a START while an entry is still
  expected, a PARAM of another tag than the entry's, or a PARAM that the copy to the
  entry's storage refuses. The first part of the theorem says that an error return
  that is neither fatal nor a no-op came about in this way; the second part that each
  of the three does end the call so: the state returned is the one \<^verbatim>\<open>lys_param_wait\<close>
  returned, with the flag of the start of the call, in WAIT_FOR_START after a PARAM and
  in RUNNING after a START, the ACK being the last bytes sent.
\<close>

theorem failure_after_io:
  "(lys_call c s = Inr (err, s') \<and> err \<noteq> LYS_ERROR_SUCCESS \<longrightarrow>
      (m_error s' \<and> m_state s' = LYS_STATE_UNKNOWN) \<or> s' = s
      \<or> ((\<exists>ps. c = Params_receive ps) \<and> err = LYS_ERROR_INVALID_PARAM \<and> m_error s' = m_error s
         \<and> (m_state s' = LYS_STATE_WAIT_FOR_START \<or> m_state s' = LYS_STATE_RUNNING)
         \<and> (\<exists>qs p ps qs' s1 r b. c = Params_receive (qs @ p # ps)
              \<and> params_loop qs s = Inr (LYS_ERROR_SUCCESS, qs', s1)
              \<and> lys_param_wait s1 = Inr (LYS_ERROR_SUCCESS, r, b, s')
              \<and> (\<not> b \<or> (\<exists>rv. r = Some rv \<and> (param_type p \<noteq> param_type rv
                    \<or> (\<exists>e p'. param_store p rv = Inr (e, p') \<and> e \<noteq> LYS_ERROR_SUCCESS)))))))
   \<and> (params_loop qs t = Inr (LYS_ERROR_SUCCESS, qs', t1)
       \<and> lys_param_wait t1 = Inr (LYS_ERROR_SUCCESS, r, b, t2)
       \<and> (\<not> b \<or> (\<exists>rv. r = Some rv \<and> (param_type p \<noteq> param_type rv
             \<or> (\<exists>e p'. param_store p rv = Inr (e, p') \<and> e \<noteq> LYS_ERROR_SUCCESS)))) \<longrightarrow>
      lys_call (Params_receive (qs @ p # ps)) t = Inr (LYS_ERROR_INVALID_PARAM, t2)
      \<and> m_error t2 = m_error t
      \<and> m_state t2 = (if b then LYS_STATE_WAIT_FOR_START else LYS_STATE_RUNNING)
      \<and> (\<exists>u. rtt_up t2 = rtt_up t1 @ u @ m_ack_buf))"
proof (intro conjI impI)
  assume a: "lys_call c s = Inr (err, s') \<and> err \<noteq> LYS_ERROR_SUCCESS"
  then have r: "lys_call c s = Inr (err, s')" and e: "err \<noteq> LYS_ERROR_SUCCESS"
    by simp_all
  let ?goal = "(m_error s' \<and> m_state s' = LYS_STATE_UNKNOWN) \<or> s' = s
      \<or> ((\<exists>ps. c = Params_receive ps) \<and> err = LYS_ERROR_INVALID_PARAM \<and> m_error s' = m_error s
         \<and> (m_state s' = LYS_STATE_WAIT_FOR_START \<or> m_state s' = LYS_STATE_RUNNING)
         \<and> (\<exists>qs p ps qs' s1 r b. c = Params_receive (qs @ p # ps)
              \<and> params_loop qs s = Inr (LYS_ERROR_SUCCESS, qs', s1)
              \<and> lys_param_wait s1 = Inr (LYS_ERROR_SUCCESS, r, b, s')
              \<and> (\<not> b \<or> (\<exists>rv. r = Some rv \<and> (param_type p \<noteq> param_type rv
                    \<or> (\<exists>e p'. param_store p rv = Inr (e, p') \<and> e \<noteq> LYS_ERROR_SUCCESS))))))"
  show ?goal
  proof (cases c)
    case Init
    with r e show ?thesis
      by simp
  next
    case Param_wait
    with r obtain r0 b0 where "lys_param_wait s = Inr (err, r0, b0, s')"
      by (cases "lys_param_wait s") auto
    from lys_param_wait_cases [OF this] e show ?thesis
      by auto
  next
    case (Params_receive ps0)
    with r obtain ps' where pr: "lys_params_receive ps0 s = Inr (err, ps', s')"
      by (cases "lys_params_receive ps0 s") auto
    from lys_params_receive_fail_paths [OF pr e]
    consider "m_error s' \<and> m_state s' = LYS_STATE_UNKNOWN" | "s' = s"
      | qs p rest qs' s1 r0 b0 where "ps0 = qs @ p # rest"
          "params_loop qs s = Inr (LYS_ERROR_SUCCESS, qs', s1)"
          "lys_param_wait s1 = Inr (LYS_ERROR_SUCCESS, r0, b0, s')"
          "\<not> b0 \<or> (\<exists>rv. r0 = Some rv \<and> (param_type p \<noteq> param_type rv
              \<or> (\<exists>e p'. param_store p rv = Inr (e, p') \<and> e \<noteq> LYS_ERROR_SUCCESS)))"
      by blast
    then show ?thesis
    proof cases
      case 1
      then show ?thesis
        by simp
    next
      case 2
      then show ?thesis
        by simp
    next
      case 3
      from lys_params_receive_soft [OF 3(2,3,4), of rest] r Params_receive 3(1)
      have "err = LYS_ERROR_INVALID_PARAM" "m_error s' = m_error s"
        "m_state s' = LYS_STATE_WAIT_FOR_START \<or> m_state s' = LYS_STATE_RUNNING"
        by (simp_all split: if_splits)
      moreover have "c = Params_receive (qs @ p # rest)"
        using Params_receive 3(1) by simp
      ultimately show ?thesis
        using 3(2,3,4) by blast
    qed
  next
    case (Param_send p0)
    with r e lys_param_send_cases [of p0 s err s'] show ?thesis
      by auto
  next
    case (Results_send ps0)
    with r e lys_results_send_fail [of ps0 s err s'] show ?thesis
      by auto
  next
    case Finish
    with r e lys_finish_cases [of s err s'] show ?thesis
      by auto
  next
    case Error_send
    with r e lys_error_send_state [of s err s'] show ?thesis
      by auto
  next
    case (Log_send p0)
    with r e lys_log_send_fail [of p0 s err s'] show ?thesis
      by auto
  qed
next
  assume "params_loop qs t = Inr (LYS_ERROR_SUCCESS, qs', t1)
       \<and> lys_param_wait t1 = Inr (LYS_ERROR_SUCCESS, r, b, t2)
       \<and> (\<not> b \<or> (\<exists>rv. r = Some rv \<and> (param_type p \<noteq> param_type rv
             \<or> (\<exists>e p'. param_store p rv = Inr (e, p') \<and> e \<noteq> LYS_ERROR_SUCCESS))))"
  then have l: "params_loop qs t = Inr (LYS_ERROR_SUCCESS, qs', t1)"
    and w: "lys_param_wait t1 = Inr (LYS_ERROR_SUCCESS, r, b, t2)"
    and c: "\<not> b \<or> (\<exists>rv. r = Some rv \<and> (param_type p \<noteq> param_type rv
             \<or> (\<exists>e p'. param_store p rv = Inr (e, p') \<and> e \<noteq> LYS_ERROR_SUCCESS)))"
    by simp_all
  note x = lys_params_receive_soft [OF l w c, of ps]
  from x show "lys_call (Params_receive (qs @ p # ps)) t = Inr (LYS_ERROR_INVALID_PARAM, t2)"
    by simp
  from x show "m_error t2 = m_error t"
    by simp
  from x show "m_state t2 = (if b then LYS_STATE_WAIT_FOR_START else LYS_STATE_RUNNING)"
    by simp
  from x show "\<exists>u. rtt_up t2 = rtt_up t1 @ u @ m_ack_buf"
    by simp
qed

lemma params_receive_mismatch:
  "lys_params_receive [\<lparr>param_type = LYS_PARAM_TYPE_UINT32, data = P_uint8 [0, 0, 0, 0]\<rparr>]
     (lys_init (lys_boot [2, 2] [[2, 6], [7, 5, 1, 42, 0, 0, 0]]))
   = Inr (LYS_ERROR_INVALID_PARAM,
       [\<lparr>param_type = LYS_PARAM_TYPE_UINT32, data = P_uint8 [0, 0, 0, 0]\<rparr>],
       (lys_boot [] [])
         \<lparr>m_buf := [7, 5, 1, 42, 0, 0, 0, 0] @ replicate 56 0, m_buf_index := 7,
          m_state := LYS_STATE_WAIT_FOR_START,
          m_param := \<lparr>param_type = LYS_PARAM_TYPE_INT32,
                       data = P_uint8 ([42, 0, 0, 0, 0] @ replicate 56 0)\<rparr>,
          rtt_up := [2, 1, 2, 6]\<rparr>)"
  by (simp add: lys_eval buf64)

theorem failure_after_io_witness:
  "lys_call (Params_receive [\<lparr>param_type = LYS_PARAM_TYPE_UINT32, data = P_uint8 [0, 0, 0, 0]\<rparr>])
     (lys_init (lys_boot [2, 2] [[2, 6], [7, 5, 1, 42, 0, 0, 0]]))
   = Inr (LYS_ERROR_INVALID_PARAM,
       (lys_boot [] [])
         \<lparr>m_buf := [7, 5, 1, 42, 0, 0, 0, 0] @ replicate 56 0, m_buf_index := 7,
          m_state := LYS_STATE_WAIT_FOR_START,
          m_param := \<lparr>param_type = LYS_PARAM_TYPE_INT32,
                       data = P_uint8 ([42, 0, 0, 0, 0] @ replicate 56 0)\<rparr>,
          rtt_up := [2, 1, 2, 6]\<rparr>)
   \<and> LYS_ERROR_INVALID_PARAM \<noteq> LYS_ERROR_SUCCESS
   \<and> m_error ((lys_boot [] [])
         \<lparr>m_buf := [7, 5, 1, 42, 0, 0, 0, 0] @ replicate 56 0, m_buf_index := 7,
          m_state := LYS_STATE_WAIT_FOR_START,
          m_param := \<lparr>param_type = LYS_PARAM_TYPE_INT32,
                       data = P_uint8 ([42, 0, 0, 0, 0] @ replicate 56 0)\<rparr>,
          rtt_up := [2, 1, 2, 6]\<rparr>)
     = m_error (lys_init (lys_boot [2, 2] [[2, 6], [7, 5, 1, 42, 0, 0, 0]]))
   \<and> m_state ((lys_boot [] [])
         \<lparr>m_buf := [7, 5, 1, 42, 0, 0, 0, 0] @ replicate 56 0, m_buf_index := 7,
          m_state := LYS_STATE_WAIT_FOR_START,
          m_param := \<lparr>param_type = LYS_PARAM_TYPE_INT32,
                       data = P_uint8 ([42, 0, 0, 0, 0] @ replicate 56 0)\<rparr>,
          rtt_up := [2, 1, 2, 6]\<rparr>) = LYS_STATE_WAIT_FOR_START
   \<and> params_loop [] (lys_init (lys_boot [2, 2] [[2, 6], [7, 5, 1, 42, 0, 0, 0]]))
     = Inr (LYS_ERROR_SUCCESS, [], lys_init (lys_boot [2, 2] [[2, 6], [7, 5, 1, 42, 0, 0, 0]]))
   \<and> lys_param_wait (lys_init (lys_boot [2, 2] [[2, 6], [7, 5, 1, 42, 0, 0, 0]]))
     = Inr (LYS_ERROR_SUCCESS,
         Some \<lparr>param_type = LYS_PARAM_TYPE_INT32,
               data = P_uint8 ([42, 0, 0, 0, 0] @ replicate 56 0)\<rparr>, True,
         (lys_boot [] [])
           \<lparr>m_buf := [7, 5, 1, 42, 0, 0, 0, 0] @ replicate 56 0, m_buf_index := 7,
            m_state := LYS_STATE_WAIT_FOR_START,
            m_param := \<lparr>param_type = LYS_PARAM_TYPE_INT32,
                         data = P_uint8 ([42, 0, 0, 0, 0] @ replicate 56 0)\<rparr>,
            rtt_up := [2, 1, 2, 6]\<rparr>)
   \<and> param_type \<lparr>param_type = LYS_PARAM_TYPE_UINT32, data = P_uint8 [0, 0, 0, 0]\<rparr>
     \<noteq> param_type \<lparr>param_type = LYS_PARAM_TYPE_INT32,
                     data = P_uint8 ([42, 0, 0, 0, 0] @ replicate 56 0)\<rparr>
   \<and> lys_param_wait (lys_init (lys_boot [2, 2] [[2, 6], [3, 5, 5]]))
     = Inr (LYS_ERROR_SUCCESS,
         Some \<lparr>param_type = LYS_PARAM_TYPE_STRING,
               data = P_str \<lparr>len = 0, p_data = [0, 0, 0, 0, 0] @ replicate 56 0\<rparr>\<rparr>, True,
         (lys_boot [] [])
           \<lparr>m_buf := [3, 5, 5, 0, 0, 0, 0, 0] @ replicate 56 0, m_buf_index := 3,
            m_state := LYS_STATE_WAIT_FOR_START,
            m_str := \<lparr>len = 0, p_data = [0, 0, 0, 0, 0] @ replicate 56 0\<rparr>,
            m_param := \<lparr>param_type = LYS_PARAM_TYPE_STRING,
                         data = P_str \<lparr>len = 0, p_data = [0, 0, 0, 0, 0] @ replicate 56 0\<rparr>\<rparr>,
            rtt_up := [2, 1, 2, 6]\<rparr>)
   \<and> param_store
        \<lparr>param_type = LYS_PARAM_TYPE_STRING, data = P_str \<lparr>len = 0, p_data = replicate 64 0\<rparr>\<rparr>
        \<lparr>param_type = LYS_PARAM_TYPE_STRING,
          data = P_str \<lparr>len = 0, p_data = [0, 0, 0, 0, 0] @ replicate 56 0\<rparr>\<rparr>
     = Inr (LYS_ERROR_INVALID_PARAM,
         \<lparr>param_type = LYS_PARAM_TYPE_STRING, data = P_str \<lparr>len = 0, p_data = replicate 64 0\<rparr>\<rparr>)
   \<and> lys_call (Params_receive
         ([] @ [\<lparr>param_type = LYS_PARAM_TYPE_STRING,
                 data = P_str \<lparr>len = 0, p_data = replicate 64 0\<rparr>\<rparr>]))
       (lys_init (lys_boot [2, 2] [[2, 6], [3, 5, 5]]))
     = Inr (LYS_ERROR_INVALID_PARAM,
         (lys_boot [] [])
           \<lparr>m_buf := [3, 5, 5, 0, 0, 0, 0, 0] @ replicate 56 0, m_buf_index := 3,
            m_state := LYS_STATE_WAIT_FOR_START,
            m_str := \<lparr>len = 0, p_data = [0, 0, 0, 0, 0] @ replicate 56 0\<rparr>,
            m_param := \<lparr>param_type = LYS_PARAM_TYPE_STRING,
                         data = P_str \<lparr>len = 0, p_data = [0, 0, 0, 0, 0] @ replicate 56 0\<rparr>\<rparr>,
            rtt_up := [2, 1, 2, 6]\<rparr>)
   \<and> params_loop [\<lparr>param_type = LYS_PARAM_TYPE_UINT32, data = P_uint8 [0, 0, 0, 0]\<rparr>]
        (lys_init (lys_boot [2, 2, 2] [[2, 6], [7, 5, 0, 42, 0, 0, 0], [2, 2]]))
     = Inr (LYS_ERROR_SUCCESS,
         [\<lparr>param_type = LYS_PARAM_TYPE_UINT32, data = P_uint8 [42, 0, 0, 0]\<rparr>],
         (lys_boot [2] [[2, 2]])
           \<lparr>m_buf := [7, 5, 0, 42, 0, 0, 0, 0] @ replicate 56 0, m_buf_index := 7,
            m_state := LYS_STATE_WAIT_FOR_START,
            m_param := \<lparr>param_type = LYS_PARAM_TYPE_UINT32,
                         data = P_uint8 ([42, 0, 0, 0, 0] @ replicate 56 0)\<rparr>,
            rtt_up := [2, 1, 2, 6]\<rparr>)
   \<and> lys_param_wait ((lys_boot [2] [[2, 2]])
           \<lparr>m_buf := [7, 5, 0, 42, 0, 0, 0, 0] @ replicate 56 0, m_buf_index := 7,
            m_state := LYS_STATE_WAIT_FOR_START,
            m_param := \<lparr>param_type = LYS_PARAM_TYPE_UINT32,
                         data = P_uint8 ([42, 0, 0, 0, 0] @ replicate 56 0)\<rparr>,
            rtt_up := [2, 1, 2, 6]\<rparr>)
     = Inr (LYS_ERROR_SUCCESS, None, False,
         (lys_boot [] [])
           \<lparr>m_buf := [2, 2, 0, 42, 0, 0, 0, 0] @ replicate 56 0, m_buf_index := 2,
            m_state := LYS_STATE_RUNNING,
            m_param := \<lparr>param_type = LYS_PARAM_TYPE_UINT32,
                         data = P_uint8 ([42, 0, 0, 0, 0] @ replicate 56 0)\<rparr>,
            rtt_up := [2, 1, 2, 6, 2, 6]\<rparr>)
   \<and> lys_call (Params_receive
         ([\<lparr>param_type = LYS_PARAM_TYPE_UINT32, data = P_uint8 [0, 0, 0, 0]\<rparr>]
          @ [\<lparr>param_type = LYS_PARAM_TYPE_UINT32, data = P_uint8 [0, 0, 0, 0]\<rparr>]))
       (lys_init (lys_boot [2, 2, 2] [[2, 6], [7, 5, 0, 42, 0, 0, 0], [2, 2]]))
     = Inr (LYS_ERROR_INVALID_PARAM,
         (lys_boot [] [])
           \<lparr>m_buf := [2, 2, 0, 42, 0, 0, 0, 0] @ replicate 56 0, m_buf_index := 2,
            m_state := LYS_STATE_RUNNING,
            m_param := \<lparr>param_type = LYS_PARAM_TYPE_UINT32,
                         data = P_uint8 ([42, 0, 0, 0, 0] @ replicate 56 0)\<rparr>,
            rtt_up := [2, 1, 2, 6, 2, 6]\<rparr>)"
proof -
  let ?u32 = "\<lparr>param_type = LYS_PARAM_TYPE_UINT32, data = P_uint8 [0, 0, 0, 0]\<rparr>"
  let ?str = "\<lparr>param_type = LYS_PARAM_TYPE_STRING, data = P_str \<lparr>len = 0, p_data = replicate 64 0\<rparr>\<rparr>"
  let ?rM = "\<lparr>param_type = LYS_PARAM_TYPE_INT32, data = P_uint8 ([42, 0, 0, 0, 0] @ replicate 56 0)\<rparr>"
  let ?rC = "\<lparr>param_type = LYS_PARAM_TYPE_STRING,
          data = P_str \<lparr>len = 0, p_data = [0, 0, 0, 0, 0] @ replicate 56 0\<rparr>\<rparr>"
  let ?sM = "lys_init (lys_boot [2, 2] [[2, 6], [7, 5, 1, 42, 0, 0, 0]])"
  let ?tM = "(lys_boot [] [])
         \<lparr>m_buf := [7, 5, 1, 42, 0, 0, 0, 0] @ replicate 56 0, m_buf_index := 7,
          m_state := LYS_STATE_WAIT_FOR_START, m_param := ?rM, rtt_up := [2, 1, 2, 6]\<rparr>"
  let ?sC = "lys_init (lys_boot [2, 2] [[2, 6], [3, 5, 5]])"
  let ?tC = "(lys_boot [] [])
           \<lparr>m_buf := [3, 5, 5, 0, 0, 0, 0, 0] @ replicate 56 0, m_buf_index := 3,
            m_state := LYS_STATE_WAIT_FOR_START,
            m_str := \<lparr>len = 0, p_data = [0, 0, 0, 0, 0] @ replicate 56 0\<rparr>,
            m_param := ?rC, rtt_up := [2, 1, 2, 6]\<rparr>"
  let ?sS = "lys_init (lys_boot [2, 2, 2] [[2, 6], [7, 5, 0, 42, 0, 0, 0], [2, 2]])"
  let ?mS = "(lys_boot [2] [[2, 2]])
           \<lparr>m_buf := [7, 5, 0, 42, 0, 0, 0, 0] @ replicate 56 0, m_buf_index := 7,
            m_state := LYS_STATE_WAIT_FOR_START,
            m_param := \<lparr>param_type = LYS_PARAM_TYPE_UINT32,
                         data = P_uint8 ([42, 0, 0, 0, 0] @ replicate 56 0)\<rparr>,
            rtt_up := [2, 1, 2, 6]\<rparr>"
  let ?tS = "(lys_boot [] [])
           \<lparr>m_buf := [2, 2, 0, 42, 0, 0, 0, 0] @ replicate 56 0, m_buf_index := 2,
            m_state := LYS_STATE_RUNNING,
            m_param := \<lparr>param_type = LYS_PARAM_TYPE_UINT32,
                         data = P_uint8 ([42, 0, 0, 0, 0] @ replicate 56 0)\<rparr>,
            rtt_up := [2, 1, 2, 6, 2, 6]\<rparr>"
  have e: "LYS_ERROR_INVALID_PARAM \<noteq> LYS_ERROR_SUCCESS"
    by simp
  have l0: "params_loop [] ?sM = Inr (LYS_ERROR_SUCCESS, [], ?sM)"
    "params_loop [] ?sC = Inr (LYS_ERROR_SUCCESS, [], ?sC)"
    by simp_all
  have wM: "lys_param_wait ?sM = Inr (LYS_ERROR_SUCCESS, Some ?rM, True, ?tM)"
    by (simp add: lys_eval buf64)
  have tM: "param_type ?u32 \<noteq> param_type ?rM"
    by simp
  have wC: "lys_param_wait ?sC = Inr (LYS_ERROR_SUCCESS, Some ?rC, True, ?tC)"
    by (simp add: lys_eval buf64)
  have stC: "param_store ?str ?rC = Inr (LYS_ERROR_INVALID_PARAM, ?str)"
    by (simp add: param_store_def str_copy_def)
  have lS: "params_loop [?u32] ?sS
      = Inr (LYS_ERROR_SUCCESS, [\<lparr>param_type = LYS_PARAM_TYPE_UINT32, data = P_uint8 [42, 0, 0, 0]\<rparr>], ?mS)"
    by (simp add: lys_eval buf64)
  have wS: "lys_param_wait ?mS = Inr (LYS_ERROR_SUCCESS, None, False, ?tS)"
    by (simp add: lys_eval buf64)
  from failure_after_io [where qs = "[]" and t = ?sM and qs' = "[]" and ?t1.0 = ?sM
      and r = "Some ?rM" and b = True and ?t2.0 = ?tM and p = ?u32 and ps = "[]"] l0(1) wM tM
  have "lys_call (Params_receive ([] @ [?u32])) ?sM = Inr (LYS_ERROR_INVALID_PARAM, ?tM)"
    by blast
  then have c: "lys_call (Params_receive [?u32]) ?sM = Inr (LYS_ERROR_INVALID_PARAM, ?tM)"
    by simp
  from failure_after_io [where c = "Params_receive [?u32]" and s = ?sM
      and err = LYS_ERROR_INVALID_PARAM and s' = ?tM] c e
  have a: "m_error ?tM = m_error ?sM \<and> m_state ?tM = LYS_STATE_WAIT_FOR_START"
    by (simp add: lys_boot_def lys_init_def)
  from failure_after_io [where qs = "[]" and t = ?sC and qs' = "[]" and ?t1.0 = ?sC
      and r = "Some ?rC" and b = True and ?t2.0 = ?tC and p = ?str and ps = "[]"] l0(2) wC stC e
  have bC: "lys_call (Params_receive ([] @ [?str])) ?sC = Inr (LYS_ERROR_INVALID_PARAM, ?tC)"
    by blast
  from failure_after_io [where qs = "[?u32]" and t = ?sS
      and qs' = "[\<lparr>param_type = LYS_PARAM_TYPE_UINT32, data = P_uint8 [42, 0, 0, 0]\<rparr>]"
      and ?t1.0 = ?mS and r = None and b = False and ?t2.0 = ?tS and p = ?u32 and ps = "[]"] lS wS
  have bS: "lys_call (Params_receive ([?u32] @ [?u32])) ?sS = Inr (LYS_ERROR_INVALID_PARAM, ?tS)"
    by blast
  show ?thesis
    using c e a l0(1) wM tM wC stC bC lS wS bS by (intro conjI) simp_all
qed

theorem failure_after_io_counterexample:
  "(case lys_params_receive [\<lparr>param_type = LYS_PARAM_TYPE_UINT32, data = P_uint8 [0, 0, 0, 0]\<rparr>]
       (lys_init (lys_boot [2, 2] [[2, 6], [7, 5, 1, 42, 0, 0, 0]])) of
      Inr (err, ps', s') \<Rightarrow>
        err = LYS_ERROR_INVALID_PARAM \<and> rtt_up s' = [2, 1, 2, 6] \<and> rtt_down s' = []
        \<and> \<not> m_error s' \<and> m_state s' = LYS_STATE_WAIT_FOR_START
    | Inl f \<Rightarrow> False)
   \<and> (case lys_params_receive
         [\<lparr>param_type = LYS_PARAM_TYPE_STRING, data = P_str \<lparr>len = 0, p_data = replicate 64 0\<rparr>\<rparr>]
         (lys_init (lys_boot [2, 2] [[2, 6], [3, 5, 5]])) of
      Inr (err, ps', s') \<Rightarrow>
        err = LYS_ERROR_INVALID_PARAM \<and> rtt_up s' = [2, 1, 2, 6] \<and> rtt_down s' = []
        \<and> \<not> m_error s' \<and> m_state s' = LYS_STATE_WAIT_FOR_START
    | Inl f \<Rightarrow> False)
   \<and> (case lys_params_receive [\<lparr>param_type = LYS_PARAM_TYPE_UINT32, data = P_uint8 [0, 0, 0, 0]\<rparr>]
       (lys_init (lys_boot [2, 2] [[2, 6], [2, 2]])) of
      Inr (err, ps', s') \<Rightarrow>
        err = LYS_ERROR_INVALID_PARAM \<and> rtt_up s' = [2, 1, 2, 6] \<and> rtt_down s' = []
        \<and> \<not> m_error s' \<and> m_state s' = LYS_STATE_RUNNING
    | Inl f \<Rightarrow> False)"
  by (simp add: lys_eval buf64)

subsection \<open>Invariants of a session\<close>

lemma param_emit_length:
  "param_emit t src n s = Inr (err, s') \<Longrightarrow> length (m_buf s') = length (m_buf s)"
  by (auto simp: param_emit_def Let_def buf_push_def split: if_splits)

lemma param_add_length:
  "param_add p s = Inr (err, s') \<Longrightarrow> length (m_buf s') = length (m_buf s)"
  by (auto simp: param_add_def buf_push_def split: option.splits sum.splits if_splits lys_ptr.splits
      dest!: param_emit_length)

lemma msg_create_length:
  "msg_create op p s = Inr (err, s') \<Longrightarrow> length (m_buf s') = length (m_buf s)"
  by (auto simp: msg_create_def Let_def buf_push_def split: if_splits sum.splits
      dest!: param_add_length)

lemma send_loop_buf:
  "send_loop buf bound bw s = Inr s' \<Longrightarrow> m_buf s' = m_buf s"
proof (induction buf bound bw s rule: send_loop.induct)
  case (1 buf bound bytes_written s)
  show ?case
  proof (cases "bytes_written < bound")
    case False
    with "1.prems" show ?thesis
      by (simp add: send_loop.simps)
  next
    case True
    with "1.prems" obtain a as where a: "rtt_accept s = a # as"
      by (auto simp: send_loop.simps [of buf bound bytes_written s] split: list.splits)
    from True a "1.prems" "1.IH" [OF True a refl] show ?thesis
      by (simp add: send_loop.simps [of buf bound bytes_written s] Let_def)
  qed
qed

lemma msg_parse_buf: "msg_parse s = Inr (err, op, p, s') \<Longrightarrow> m_buf s' = m_buf s"
  by (auto simp: msg_parse_def param_parse_def Let_def split: if_splits sum.splits)

lemma msg_receive_length:
  "msg_receive s = Inr (err, op, p, s') \<Longrightarrow> length (m_buf s') = length (m_buf s)"
  by (auto simp: msg_receive_def split: sum.splits dest!: msg_parse_buf msg_receive_loop_keeps)

lemma msg_send_and_ack_length:
  assumes "msg_send_and_ack op p s = Inr (err, s')"
  shows "length (m_buf s') = length (m_buf s)"
proof -
  from assms obtain e1 s1 where c: "msg_create op p s = Inr (e1, s1)"
    by (auto simp: msg_send_and_ack_def split: sum.splits)
  note l1 = msg_create_length [OF c]
  show ?thesis
  proof (cases "e1 = LYS_ERROR_SUCCESS")
    case False
    with assms c l1 show ?thesis
      by (simp add: msg_send_and_ack_def)
  next
    case True
    with assms c obtain s2 where s: "msg_send s1 = Inr s2"
      by (auto simp: msg_send_and_ack_def split: sum.splits)
    with assms c True have w: "wait_for_ack s2 = Inr (err, s')"
      by (simp add: msg_send_and_ack_def)
    from s have "m_buf s2 = m_buf s1"
      by (auto simp: msg_send_def dest: send_loop_buf)
    moreover from w have "length (m_buf s') = length (m_buf s2)"
      by (auto simp: wait_for_ack_def split: sum.splits if_splits dest: msg_receive_length)
    ultimately show ?thesis
      using l1 by simp
  qed
qed

lemma msg_receive_and_ack_length:
  "msg_receive_and_ack s = Inr (err, op, p, s') \<Longrightarrow> length (m_buf s') = length (m_buf s)"
  by (auto simp: msg_receive_and_ack_def ack_msg_send_def split: sum.splits if_splits
      dest!: msg_receive_length send_loop_buf)

lemma init_begin_length:
  "init_begin s = Inr (e, s1) \<Longrightarrow> length (m_buf s1) = length (m_buf s)"
  by (auto simp: init_begin_def error_def split: if_splits sum.splits
      dest!: msg_send_and_ack_length)

lemma result_begin_length:
  "result_begin s = Inr (e, s1) \<Longrightarrow> length (m_buf s1) = length (m_buf s)"
  by (auto simp: result_begin_def error_def split: if_splits sum.splits
      dest!: msg_send_and_ack_length)

lemma lys_param_wait_length:
  assumes "lys_param_wait s = Inr (err, r, b, s')"
  shows "length (m_buf s') = length (m_buf s)"
proof -
  from assms obtain e s0 where i: "init_begin s = Inr (e, s0)"
    by (auto simp: lys_param_wait_def split: sum.splits)
  note l = init_begin_length [OF i]
  show ?thesis
  proof (cases "e = LYS_ERROR_SUCCESS \<and> m_state s0 = LYS_STATE_WAIT_FOR_START")
    case False
    with assms i l show ?thesis
      by (auto simp: lys_param_wait_def split: if_splits)
  next
    case True
    with assms i obtain e2 op p s2 where a: "msg_receive_and_ack s0 = Inr (e2, op, p, s2)"
      by (auto simp: lys_param_wait_def split: sum.splits)
    from assms i a True have "s' = error s2 \<or> s' = s2\<lparr>m_state := LYS_STATE_RUNNING\<rparr> \<or> s' = s2"
      by (auto simp: lys_param_wait_def split: if_splits)
    with msg_receive_and_ack_length [OF a] l show ?thesis
      by (auto simp: error_def)
  qed
qed

lemma lys_param_send_length:
  assumes "lys_param_send p s = Inr (err, s')"
  shows "length (m_buf s') = length (m_buf s)"
proof -
  from assms obtain e s0 where i: "result_begin s = Inr (e, s0)"
    by (auto simp: lys_param_send_def split: sum.splits)
  note l = result_begin_length [OF i]
  show ?thesis
  proof (cases "e = LYS_ERROR_SUCCESS \<and> m_state s0 = LYS_STATE_RESULT")
    case False
    with assms i l show ?thesis
      by (auto simp: lys_param_send_def split: if_splits)
  next
    case True
    with assms i obtain e2 s2 where a: "msg_send_and_ack LYS_OP_PARAM p s0 = Inr (e2, s2)"
      by (auto simp: lys_param_send_def split: sum.splits)
    from assms i a True have "s' = error s2 \<or> s' = s2"
      by (auto simp: lys_param_send_def split: if_splits)
    with msg_send_and_ack_length [OF a] l show ?thesis
      by (auto simp: error_def)
  qed
qed

lemma lys_finish_length:
  assumes "lys_finish s = Inr (err, s')"
  shows "length (m_buf s') = length (m_buf s)"
proof -
  from assms obtain e s0 where i: "result_begin s = Inr (e, s0)"
    by (auto simp: lys_finish_def split: sum.splits)
  note l = result_begin_length [OF i]
  show ?thesis
  proof (cases "e = LYS_ERROR_SUCCESS \<and> m_state s0 = LYS_STATE_RESULT")
    case False
    with assms i l show ?thesis
      by (auto simp: lys_finish_def split: if_splits)
  next
    case True
    with assms i obtain e2 s2 where a: "msg_send_and_ack LYS_OP_FINISHED None s0 = Inr (e2, s2)"
      by (auto simp: lys_finish_def split: sum.splits)
    from assms i a True have "s' = error s2 \<or> s' = s2\<lparr>m_state := LYS_STATE_RESULT\<rparr>"
      by (auto simp: lys_finish_def split: if_splits)
    with msg_send_and_ack_length [OF a] l show ?thesis
      by (auto simp: error_def)
  qed
qed

lemma lys_error_send_length:
  assumes "lys_error_send s = Inr (err, s')"
  shows "length (m_buf s') = length (m_buf s)"
proof -
  have "msg_send_and_ack LYS_OP_UNKNOWN None (error s) = Inr (err, s')"
    using assms by (simp add: lys_error_send_def msg_send_and_ack_def)
  from msg_send_and_ack_length [OF this] show ?thesis
    by (simp add: error_def)
qed

lemma lys_log_send_length:
  "lys_log_send p s = Inr (err, s') \<Longrightarrow> length (m_buf s') = length (m_buf s)"
  by (auto simp: lys_log_send_def Let_def error_def split: if_splits sum.splits
      dest!: msg_send_and_ack_length)

lemma lys_log_send_keeps:
  "lys_log_send p s = Inr (LYS_ERROR_SUCCESS, s') \<Longrightarrow>
     m_state s' = m_state s \<and> m_error s' = m_error s"
  by (auto simp: lys_log_send_def Let_def split: if_splits sum.splits
      dest!: msg_send_and_ack_keeps)

lemma lys_param_wait_after_error:
  "m_error s \<Longrightarrow> m_state s = LYS_STATE_UNKNOWN \<Longrightarrow>
     lys_param_wait s = Inr (LYS_ERROR_INVALID_STATE, None, False, s)"
  by (simp add: lys_param_wait_def init_begin_def)

lemma lys_param_send_unknown:
  "m_state s = LYS_STATE_UNKNOWN \<Longrightarrow> lys_param_send p s = Inr (LYS_ERROR_INVALID_STATE, s)"
  by (simp add: lys_param_send_def result_begin_def)

lemma lys_finish_unknown:
  "m_state s = LYS_STATE_UNKNOWN \<Longrightarrow> lys_finish s = Inr (LYS_ERROR_INVALID_STATE, s)"
  by (simp add: lys_finish_def result_begin_def)

lemma lys_param_wait_sticky:
  assumes "lys_param_wait s = Inr (err, r, b, s')" and "m_error s \<longrightarrow> m_state s = LYS_STATE_UNKNOWN"
  shows "m_error s' \<longrightarrow> m_state s' = LYS_STATE_UNKNOWN"
proof (cases "m_error s")
  case True
  with assms lys_param_wait_after_error [of s] show ?thesis
    by simp
next
  case False
  with lys_param_wait_cases [OF assms(1)] show ?thesis
    by auto
qed

lemma lys_param_send_sticky:
  assumes "lys_param_send p s = Inr (err, s')" and "m_error s \<longrightarrow> m_state s = LYS_STATE_UNKNOWN"
  shows "m_error s' \<longrightarrow> m_state s' = LYS_STATE_UNKNOWN"
proof (cases "m_error s")
  case True
  with assms lys_param_send_unknown [of s p] show ?thesis
    by simp
next
  case False
  with lys_param_send_cases [OF assms(1)] show ?thesis
    by auto
qed

lemma lys_finish_sticky:
  assumes "lys_finish s = Inr (err, s')" and "m_error s \<longrightarrow> m_state s = LYS_STATE_UNKNOWN"
  shows "m_error s' \<longrightarrow> m_state s' = LYS_STATE_UNKNOWN"
proof (cases "m_error s")
  case True
  with assms lys_finish_unknown [of s] show ?thesis
    by simp
next
  case False
  with lys_finish_cases [OF assms(1)] show ?thesis
    by auto
qed

lemma lys_log_send_sticky:
  assumes "lys_log_send p s = Inr (err, s')" and "m_error s \<longrightarrow> m_state s = LYS_STATE_UNKNOWN"
  shows "m_error s' \<longrightarrow> m_state s' = LYS_STATE_UNKNOWN"
proof (cases "err = LYS_ERROR_SUCCESS")
  case True
  with assms lys_log_send_keeps [of p s s'] show ?thesis
    by simp
next
  case False
  with assms lys_log_send_fail [of p s err s'] show ?thesis
    by auto
qed

lemma lys_params_receive_ok:
  assumes "lys_params_receive ps s = Inr (err, ps', s')"
    and "length (m_buf s) = 64 \<and> (m_error s \<longrightarrow> m_state s = LYS_STATE_UNKNOWN)"
  shows "length (m_buf s') = 64 \<and> (m_error s' \<longrightarrow> m_state s' = LYS_STATE_UNKNOWN)"
  using assms
proof (induction ps arbitrary: s err ps' s')
  case Nil
  from Nil(1) obtain e r b s1 where w: "lys_param_wait s = Inr (e, r, b, s1)"
    by (auto split: sum.splits)
  from lys_param_wait_sticky [OF w] lys_param_wait_length [OF w] Nil w show ?case
    by (auto simp: error_def split: if_splits)
next
  case (Cons p ps)
  from Cons.prems(1) obtain e r b s1 where w: "lys_param_wait s = Inr (e, r, b, s1)"
    by (auto split: sum.splits)
  from lys_param_wait_sticky [OF w] lys_param_wait_length [OF w] Cons.prems(2)
  have s1: "length (m_buf s1) = 64 \<and> (m_error s1 \<longrightarrow> m_state s1 = LYS_STATE_UNKNOWN)"
    by simp
  from lys_params_receive_round [OF Cons.prems(1) w]
  consider ps2 where "lys_params_receive ps s1 = Inr (err, ps2, s')" | "s' = s1"
    by auto
  then show ?case
  proof cases
    case 1
    then show ?thesis
      using s1 by (rule Cons.IH)
  next
    case 2
    with s1 show ?thesis
      by simp
  qed
qed

lemma lys_results_send_ok:
  assumes "lys_results_send ps s = Inr (err, s')"
    and "length (m_buf s) = 64 \<and> (m_error s \<longrightarrow> m_state s = LYS_STATE_UNKNOWN)"
  shows "length (m_buf s') = 64 \<and> (m_error s' \<longrightarrow> m_state s' = LYS_STATE_UNKNOWN)"
  using assms
proof (induction ps arbitrary: s)
  case Nil
  with lys_finish_sticky [of s err s'] lys_finish_length [of s err s'] show ?case
    by simp
next
  case (Cons p ps)
  from Cons.prems(1) obtain e s1 where w: "lys_param_send (Some p) s = Inr (e, s1)"
    by (auto split: sum.splits)
  from lys_param_send_sticky [OF w] lys_param_send_length [OF w] Cons.prems(2)
  have s1: "length (m_buf s1) = 64 \<and> (m_error s1 \<longrightarrow> m_state s1 = LYS_STATE_UNKNOWN)"
    by simp
  from Cons.prems(1) w consider "s' = s1" | "lys_results_send ps s1 = Inr (err, s')"
    by (auto split: if_splits)
  then show ?case
  proof cases
    case 1
    with s1 show ?thesis by simp
  next
    case 2
    then show ?thesis
      using s1 by (rule Cons.IH)
  qed
qed

lemma lys_call_ok:
  assumes "lys_call c s = Inr (err, s')"
    and "length (m_buf s) = 64 \<and> (m_error s \<longrightarrow> m_state s = LYS_STATE_UNKNOWN)"
  shows "length (m_buf s') = 64 \<and> (m_error s' \<longrightarrow> m_state s' = LYS_STATE_UNKNOWN)"
proof (cases c)
  case Init
  with assms show ?thesis
    by (auto simp: lys_init_def)
next
  case Param_wait
  with assms obtain r b where w: "lys_param_wait s = Inr (err, r, b, s')"
    by (cases "lys_param_wait s") auto
  from lys_param_wait_sticky [OF w] lys_param_wait_length [OF w] assms(2) show ?thesis
    by simp
next
  case (Params_receive ps)
  with assms obtain ps' where "lys_params_receive ps s = Inr (err, ps', s')"
    by (cases "lys_params_receive ps s") auto
  then show ?thesis
    using assms(2) by (rule lys_params_receive_ok)
next
  case (Param_send p)
  with assms lys_param_send_sticky [of p s err s'] lys_param_send_length [of p s err s']
  show ?thesis
    by simp
next
  case (Results_send ps)
  with assms lys_results_send_ok [of ps s err s'] show ?thesis
    by simp
next
  case Finish
  with assms lys_finish_sticky [of s err s'] lys_finish_length [of s err s'] show ?thesis
    by simp
next
  case Error_send
  with assms lys_error_send_state [of s err s'] lys_error_send_length [of s err s'] show ?thesis
    by simp
next
  case (Log_send p)
  with assms lys_log_send_sticky [of p s err s'] lys_log_send_length [of p s err s'] show ?thesis
    by simp
qed

lemma lys_run_ok:
  assumes "lys_run cs s = Inr s'"
    and "length (m_buf s) = 64 \<and> (m_error s \<longrightarrow> m_state s = LYS_STATE_UNKNOWN)"
  shows "length (m_buf s') = 64 \<and> (m_error s' \<longrightarrow> m_state s' = LYS_STATE_UNKNOWN)"
  using assms
proof (induction cs arbitrary: s)
  case Nil
  then show ?case by simp
next
  case (Cons c cs)
  from Cons.prems(1) obtain e s1 where w: "lys_call c s = Inr (e, s1)"
    and r: "lys_run cs s1 = Inr s'"
    by (auto split: sum.splits)
  from lys_call_ok [OF w Cons.prems(2)] r show ?case
    by (intro Cons.IH)
qed

subsection \<open>After the end of a session\<close>

lemma param_emit_op_byte:
  assumes "param_emit t src n s = Inr (e, s')"
    and "unat (m_buf_index s) = 2 \<or> unat (m_buf_index s) = 3"
  shows "m_buf s' ! 1 = m_buf s ! 1"
proof -
  have i: "unat (m_buf_index s + 1) = unat (m_buf_index s) + 1"
    using assms(2) by (auto simp: unat_add8)
  from assms show ?thesis
    by (auto simp: param_emit_def Let_def i nth_append split: if_splits)
qed

lemma param_add_op_byte:
  assumes "param_add p s = Inr (e, s')" and "m_buf_index s = 2" and "length (m_buf s) = 64"
  shows "m_buf s' ! 1 = m_buf s ! 1"
  using assms
  by (auto simp: param_add_def split: option.splits sum.splits if_splits lys_ptr.splits
      dest!: param_emit_op_byte)

lemma msg_create_op_byte:
  assumes "msg_create op p s = Inr (LYS_ERROR_SUCCESS, s')" and "length (m_buf s) = 64"
  shows "frame s' ! 1 = ucast op"
proof -
  let ?s1 = "buf_push (ucast op) (s\<lparr>m_buf_index := 1\<rparr>)"
  have s1: "m_buf_index ?s1 = 2" "length (m_buf ?s1) = 64" "m_buf ?s1 ! 1 = ucast op"
    using assms(2) by simp_all
  from msg_create_frame [OF assms] have f: "frame s' ! 1 = m_buf s' ! 1"
    by (simp add: frame_def)
  from assms s1 have "m_buf s' ! 1 = ucast op"
    by (auto simp: msg_create_def Let_def split: if_splits sum.splits dest!: param_add_op_byte)
  with f show ?thesis
    by simp
qed

lemma lys_finish_ok:
  assumes "m_state s = LYS_STATE_RESULT" and "length (m_buf s) = 64"
    and "accepts (rtt_accept s) 2 = Some acc" and "delivers (rtt_down s) m_ack_buf = Some rest"
  shows "lys_finish s = Inr (LYS_ERROR_SUCCESS,
     s\<lparr>m_buf := m_ack_buf @ drop 2 (m_buf s), m_buf_index := 2,
       rtt_up := rtt_up s @ [2, 4], rtt_accept := acc, rtt_down := rest\<rparr>)"
proof -
  have "msg_send_and_ack LYS_OP_FINISHED None s = Inr (LYS_ERROR_SUCCESS,
     s\<lparr>m_buf := m_ack_buf @ drop 2 (m_buf s), m_buf_index := 2,
        rtt_up := rtt_up s @ [2, ucast LYS_OP_FINISHED], rtt_accept := acc, rtt_down := rest\<rparr>)"
    using assms by (intro msg_send_and_ack_simple) simp_all
  with assms(1) show ?thesis
    by (simp add: lys_finish_def result_begin_def)
qed

lemma lys_param_send_ok:
  assumes "m_state s = LYS_STATE_RESULT" and "length (m_buf s) = 64"
    and "msg_create LYS_OP_PARAM p s = Inr (LYS_ERROR_SUCCESS, s1)"
    and "accepts (rtt_accept s) (length (frame s1)) = Some acc"
    and "delivers (rtt_down s) m_ack_buf = Some rest"
  shows "lys_param_send p s = Inr (LYS_ERROR_SUCCESS,
     s1\<lparr>m_buf := m_ack_buf @ drop 2 (m_buf s1), m_buf_index := 2,
        rtt_up := rtt_up s @ frame s1, rtt_accept := acc, rtt_down := rest\<rparr>)"
  using assms(1) msg_send_and_ack_ok [OF assms(3,2,4,5)]
  by (simp add: lys_param_send_def result_begin_def)

text \<open>
  C10. After a \<^verbatim>\<open>lys_finish\<close> that returned success, in any session run from
  \<^verbatim>\<open>lys_init\<close>, the state is still \<^verbatim>\<open>LYS_STATE_RESULT\<close> and the sticky error flag is
  clear. So, when the channel takes the bytes and the host answers with an ACK, a
  further \<^verbatim>\<open>lys_finish\<close> sends another FINISHED frame (\<open>02 04\<close>) and returns success,
  and a further \<^verbatim>\<open>lys_param_send\<close> with a parameter that encodes sends another PARAM
  frame and returns success: the engine does not enforce the end of the session.
\<close>

theorem finish_is_not_terminal:
  assumes "lys_run cs (lys_init s0) = Inr s" and "length (m_buf s0) = 64"
    and "lys_finish s = Inr (LYS_ERROR_SUCCESS, s1)"
  shows "m_state s1 = LYS_STATE_RESULT \<and> \<not> m_error s1
    \<and> (\<forall>acc rest.
          accepts (rtt_accept s1) 2 = Some acc \<and> delivers (rtt_down s1) m_ack_buf = Some rest \<longrightarrow>
          (\<exists>s2. lys_finish s1 = Inr (LYS_ERROR_SUCCESS, s2) \<and> rtt_up s2 = rtt_up s1 @ [2, 4]
             \<and> m_state s2 = LYS_STATE_RESULT \<and> \<not> m_error s2))
    \<and> (\<forall>p s' acc rest.
          msg_create LYS_OP_PARAM p s1 = Inr (LYS_ERROR_SUCCESS, s')
          \<and> accepts (rtt_accept s1) (length (frame s')) = Some acc
          \<and> delivers (rtt_down s1) m_ack_buf = Some rest \<longrightarrow>
          (\<exists>s3. lys_param_send p s1 = Inr (LYS_ERROR_SUCCESS, s3)
             \<and> rtt_up s3 = rtt_up s1 @ frame s' \<and> frame s' ! 1 = 5
             \<and> m_state s3 = LYS_STATE_RESULT \<and> \<not> m_error s3))"
proof -
  have "length (m_buf (lys_init s0)) = 64
      \<and> (m_error (lys_init s0) \<longrightarrow> m_state (lys_init s0) = LYS_STATE_UNKNOWN)"
    using assms(2) by (simp add: lys_init_def)
  from lys_run_ok [OF assms(1) this]
  have s: "length (m_buf s) = 64 \<and> (m_error s \<longrightarrow> m_state s = LYS_STATE_UNKNOWN)" .
  from lys_finish_sticky [OF assms(3)] lys_finish_length [OF assms(3)] s
  have l1: "length (m_buf s1) = 64" and e1: "m_error s1 \<longrightarrow> m_state s1 = LYS_STATE_UNKNOWN"
    by simp_all
  from lys_finish_cases [OF assms(3)] have r1: "m_state s1 = LYS_STATE_RESULT"
    by simp
  with e1 have n1: "\<not> m_error s1"
    by auto
  have "\<exists>s2. lys_finish s1 = Inr (LYS_ERROR_SUCCESS, s2) \<and> rtt_up s2 = rtt_up s1 @ [2, 4]
             \<and> m_state s2 = LYS_STATE_RESULT \<and> \<not> m_error s2"
    if "accepts (rtt_accept s1) 2 = Some acc" "delivers (rtt_down s1) m_ack_buf = Some rest"
    for acc rest
    using lys_finish_ok [OF r1 l1 that] r1 n1 by simp
  moreover have "\<exists>s3. lys_param_send p s1 = Inr (LYS_ERROR_SUCCESS, s3)
             \<and> rtt_up s3 = rtt_up s1 @ frame s' \<and> frame s' ! 1 = 5
             \<and> m_state s3 = LYS_STATE_RESULT \<and> \<not> m_error s3"
    if "msg_create LYS_OP_PARAM p s1 = Inr (LYS_ERROR_SUCCESS, s')"
      "accepts (rtt_accept s1) (length (frame s')) = Some acc"
      "delivers (rtt_down s1) m_ack_buf = Some rest"
    for p s' acc rest
    using lys_param_send_ok [OF r1 l1 that] msg_create_keeps [OF that(1)]
      msg_create_op_byte [OF that(1) l1] r1 n1
    by simp
  ultimately show ?thesis
    using r1 n1 by blast
qed

theorem finish_is_not_terminal_witness:
  "lys_run [Param_wait] (lys_init (lys_boot [2, 2, 2, 2, 4] [[2, 6], [2, 2], [2, 6], [2, 6], [2, 6]]))
   = Inr ((lys_boot [2, 2, 4] [[2, 6], [2, 6], [2, 6]])
       \<lparr>m_buf := [2, 2, 0, 0, 0, 0, 0, 0] @ replicate 56 0, m_buf_index := 2,
        m_state := LYS_STATE_RUNNING, rtt_up := [2, 1, 2, 6]\<rparr>)
   \<and> length (m_buf (lys_boot [2, 2, 2, 2, 4] [[2, 6], [2, 2], [2, 6], [2, 6], [2, 6]])) = 64
   \<and> lys_finish ((lys_boot [2, 2, 4] [[2, 6], [2, 6], [2, 6]])
       \<lparr>m_buf := [2, 2, 0, 0, 0, 0, 0, 0] @ replicate 56 0, m_buf_index := 2,
        m_state := LYS_STATE_RUNNING, rtt_up := [2, 1, 2, 6]\<rparr>)
     = Inr (LYS_ERROR_SUCCESS, (lys_boot [4] [[2, 6]])
       \<lparr>m_buf := [2, 6, 0, 0, 0, 0, 0, 0] @ replicate 56 0, m_buf_index := 2,
        m_state := LYS_STATE_RESULT, rtt_up := [2, 1, 2, 6, 2, 3, 2, 4]\<rparr>)
   \<and> accepts [4] 2 = Some [] \<and> delivers [[2, 6]] m_ack_buf = Some []
   \<and> (\<exists>s2. lys_finish ((lys_boot [4] [[2, 6]])
       \<lparr>m_buf := [2, 6, 0, 0, 0, 0, 0, 0] @ replicate 56 0, m_buf_index := 2,
        m_state := LYS_STATE_RESULT, rtt_up := [2, 1, 2, 6, 2, 3, 2, 4]\<rparr>)
        = Inr (LYS_ERROR_SUCCESS, s2)
      \<and> rtt_up s2 = [2, 1, 2, 6, 2, 3, 2, 4, 2, 4]
      \<and> m_state s2 = LYS_STATE_RESULT \<and> \<not> m_error s2)
   \<and> msg_create LYS_OP_PARAM (Some \<lparr>param_type = LYS_PARAM_TYPE_UINT8, data = P_uint8 [7]\<rparr>)
       ((lys_boot [4] [[2, 6]])
       \<lparr>m_buf := [2, 6, 0, 0, 0, 0, 0, 0] @ replicate 56 0, m_buf_index := 2,
        m_state := LYS_STATE_RESULT, rtt_up := [2, 1, 2, 6, 2, 3, 2, 4]\<rparr>)
     = Inr (LYS_ERROR_SUCCESS, (lys_boot [4] [[2, 6]])
       \<lparr>m_buf := [4, 5, 2, 7, 0, 0, 0, 0] @ replicate 56 0, m_buf_index := 4,
        m_state := LYS_STATE_RESULT, rtt_up := [2, 1, 2, 6, 2, 3, 2, 4]\<rparr>)
   \<and> accepts [4] 4 = Some []
   \<and> (\<exists>s3. lys_param_send (Some \<lparr>param_type = LYS_PARAM_TYPE_UINT8, data = P_uint8 [7]\<rparr>)
       ((lys_boot [4] [[2, 6]])
       \<lparr>m_buf := [2, 6, 0, 0, 0, 0, 0, 0] @ replicate 56 0, m_buf_index := 2,
        m_state := LYS_STATE_RESULT, rtt_up := [2, 1, 2, 6, 2, 3, 2, 4]\<rparr>)
        = Inr (LYS_ERROR_SUCCESS, s3)
      \<and> rtt_up s3 = [2, 1, 2, 6, 2, 3, 2, 4, 4, 5, 2, 7]
      \<and> m_state s3 = LYS_STATE_RESULT \<and> \<not> m_error s3)"
proof -
  let ?s0 = "lys_boot [2, 2, 2, 2, 4] [[2, 6], [2, 2], [2, 6], [2, 6], [2, 6]]"
  let ?sA = "(lys_boot [2, 2, 4] [[2, 6], [2, 6], [2, 6]])
       \<lparr>m_buf := [2, 2, 0, 0, 0, 0, 0, 0] @ replicate 56 0, m_buf_index := 2,
        m_state := LYS_STATE_RUNNING, rtt_up := [2, 1, 2, 6]\<rparr>"
  let ?sB = "(lys_boot [4] [[2, 6]])
       \<lparr>m_buf := [2, 6, 0, 0, 0, 0, 0, 0] @ replicate 56 0, m_buf_index := 2,
        m_state := LYS_STATE_RESULT, rtt_up := [2, 1, 2, 6, 2, 3, 2, 4]\<rparr>"
  let ?sC = "(lys_boot [4] [[2, 6]])
       \<lparr>m_buf := [4, 5, 2, 7, 0, 0, 0, 0] @ replicate 56 0, m_buf_index := 4,
        m_state := LYS_STATE_RESULT, rtt_up := [2, 1, 2, 6, 2, 3, 2, 4]\<rparr>"
  have r: "lys_run [Param_wait] (lys_init ?s0) = Inr ?sA"
    by (simp add: lys_eval buf64)
  have l: "length (m_buf ?s0) = 64"
    by (simp add: lys_boot_def)
  have f: "lys_finish ?sA = Inr (LYS_ERROR_SUCCESS, ?sB)"
    by (simp add: lys_eval buf64)
  have c: "msg_create LYS_OP_PARAM (Some \<lparr>param_type = LYS_PARAM_TYPE_UINT8, data = P_uint8 [7]\<rparr>) ?sB
    = Inr (LYS_ERROR_SUCCESS, ?sC)"
    by (simp add: lys_eval)
  have fr: "frame ?sC = [4, 5, 2, 7]"
    by (simp add: frame_def)
  have ac: "accepts [4] 2 = Some []" "accepts [4] 4 = Some []" "delivers [[2, 6]] m_ack_buf = Some []"
    by (simp_all add: numeral_2_eq_2 numeral_Bit0 [of "Num.Bit0 Num.One", where 'a = nat])
  have len: "length (frame ?sC) = 4"
    unfolding fr by simp
  have rt: "rtt_accept ?sB = [4]" "rtt_down ?sB = [[2, 6]]"
    by (simp_all add: lys_boot_def)
  have a2: "accepts (rtt_accept ?sB) 2 = Some []"
    and a4: "accepts (rtt_accept ?sB) (length (frame ?sC)) = Some []"
    and d: "delivers (rtt_down ?sB) m_ack_buf = Some []"
    by (simp_all only: len rt ac)
  note th = finish_is_not_terminal [OF r l f]
  from th a2 d have fin0: "\<exists>s2. lys_finish ?sB = Inr (LYS_ERROR_SUCCESS, s2) \<and> rtt_up s2 = rtt_up ?sB @ [2, 4]
             \<and> m_state s2 = LYS_STATE_RESULT \<and> \<not> m_error s2"
    by blast
  from th c a4 d have snd0: "\<exists>s3. lys_param_send (Some \<lparr>param_type = LYS_PARAM_TYPE_UINT8, data = P_uint8 [7]\<rparr>) ?sB
        = Inr (LYS_ERROR_SUCCESS, s3)
      \<and> rtt_up s3 = rtt_up ?sB @ frame ?sC \<and> frame ?sC ! 1 = 5
      \<and> m_state s3 = LYS_STATE_RESULT \<and> \<not> m_error s3"
    by blast
  from fin0 have fin: "\<exists>s2. lys_finish ?sB = Inr (LYS_ERROR_SUCCESS, s2)
      \<and> rtt_up s2 = [2, 1, 2, 6, 2, 3, 2, 4, 2, 4]
      \<and> m_state s2 = LYS_STATE_RESULT \<and> \<not> m_error s2"
    by simp
  from snd0 [unfolded fr] have snd: "\<exists>s3. lys_param_send (Some \<lparr>param_type = LYS_PARAM_TYPE_UINT8, data = P_uint8 [7]\<rparr>) ?sB
        = Inr (LYS_ERROR_SUCCESS, s3)
      \<and> rtt_up s3 = [2, 1, 2, 6, 2, 3, 2, 4, 4, 5, 2, 7]
      \<and> m_state s3 = LYS_STATE_RESULT \<and> \<not> m_error s3"
    by simp
  show ?thesis
    using r l f c ac fin snd by (intro conjI)
qed

subsection \<open>Receiving the expected parameters\<close>

lemma buf4:
  assumes "length (b :: u8 list) = 64"
  obtains b0 b1 b2 b3 bs where "b = b0 # b1 # b2 # b3 # bs"
proof -
  from assms obtain b0 r0 where 0: "b = b0 # r0" by (cases b) auto
  with assms obtain b1 r1 where 1: "r0 = b1 # r1" by (cases r0) auto
  with assms 0 obtain b2 r2 where 2: "r1 = b2 # r2" by (cases r1) auto
  with assms 0 1 obtain b3 r3 where 3: "r2 = b3 # r3" by (cases r2) auto
  from 0 1 2 3 that show thesis by simp
qed

lemma msg_create_scalar_eq:
  assumes l: "length (m_buf s) = 64" and d: "data v = P_uint8 bs"
    and k: "lys_param_len_lookup (param_type v) = Inr n" and n: "n \<noteq> 0" "unat n \<le> length bs"
  shows "msg_create LYS_OP_PARAM (Some v) s = Inr (LYS_ERROR_SUCCESS,
     s\<lparr>m_buf := ([3 + ucast n, 5, ucast (param_type v)] @ take (unat n) bs)
          @ drop (3 + unat n) (m_buf s),
       m_buf_index := 3 + ucast n\<rparr>)"
proof -
  from l obtain b0 b1 b2 b3 r where b: "m_buf s = b0 # b1 # b2 # b3 # r"
    by (rule buf4)
  from lookup_cases [OF k] n(1) have n4: "n = 4 \<or> n = 1"
    by auto
  then have m: "\<not> LYS_MAX_MSG_LEN < 3 + n"
    by auto
  have e: "param_emit (param_type v) bs n (buf_push 5 (s\<lparr>m_buf_index := 1\<rparr>))
    = Inr (LYS_ERROR_SUCCESS, (buf_push 5 (s\<lparr>m_buf_index := 1\<rparr>))
        \<lparr>m_buf := take (2 + 1) ((m_buf (buf_push 5 (s\<lparr>m_buf_index := 1\<rparr>)))[2 := ucast (param_type v)])
             @ take (unat n) bs @ drop (2 + 1 + unat n) (m_buf (buf_push 5 (s\<lparr>m_buf_index := 1\<rparr>))),
          m_buf_index := m_buf_index (buf_push 5 (s\<lparr>m_buf_index := 1\<rparr>)) + 1 + ucast n\<rparr>)"
    using l n n4 by (intro param_emit_eq) auto
  show ?thesis
    using d k n(1) m
    by (simp add: msg_create_def param_add_def e) (simp add: buf_push_def b)
qed


lemma msg_create_str_eq:
  assumes l: "length (m_buf s) = 64" and d: "data v = P_str str"
    and k: "param_type v = LYS_PARAM_TYPE_STRING"
    and n: "len str \<noteq> 0" "unat (len str) \<le> 61" "unat (len str) \<le> length (p_data str)"
  shows "msg_create LYS_OP_PARAM (Some v) s = Inr (LYS_ERROR_SUCCESS,
     s\<lparr>m_buf := ([3 + ucast (len str), 5, 5] @ take (unat (len str)) (p_data str))
          @ drop (3 + unat (len str)) (m_buf s),
       m_buf_index := 3 + ucast (len str)\<rparr>)"
proof -
  from l obtain b0 b1 b2 b3 r where b: "m_buf s = b0 # b1 # b2 # b3 # r"
    by (rule buf4)
  have e: "param_emit 5 (p_data str) (len str) (buf_push 5 (s\<lparr>m_buf_index := 1\<rparr>))
    = Inr (LYS_ERROR_SUCCESS, (buf_push 5 (s\<lparr>m_buf_index := 1\<rparr>))
        \<lparr>m_buf := take (2 + 1) ((m_buf (buf_push 5 (s\<lparr>m_buf_index := 1\<rparr>)))[2 := ucast (5 :: u32)])
             @ take (unat (len str)) (p_data str)
             @ drop (2 + 1 + unat (len str)) (m_buf (buf_push 5 (s\<lparr>m_buf_index := 1\<rparr>))),
          m_buf_index := m_buf_index (buf_push 5 (s\<lparr>m_buf_index := 1\<rparr>)) + 1 + ucast (len str)\<rparr>)"
    using l n by (intro param_emit_eq) auto
  show ?thesis
    using d k n
    by (simp add: msg_create_def param_add_def lookup_simps verify_str_len_ok e)
      (simp add: buf_push_def b)
qed

lemma msg_create_array_eq:
  assumes l: "length (m_buf s) = 64" and d: "data v = P_array a"
    and k: "param_type v = LYS_PARAM_TYPE_ARRAY"
    and t: "lys_param_len_lookup (a_param_type a) = Inr n" and n: "n \<noteq> 0"
    and c: "a_item_count a \<noteq> 0" "unat n * unat (a_item_count a) \<le> 60"
      "unat n * unat (a_item_count a) \<le> length (a_data a)"
  shows "msg_create LYS_OP_PARAM (Some v) s = Inr (LYS_ERROR_SUCCESS,
     s\<lparr>m_buf := ([4 + ucast (n * a_item_count a), 5, 6, ucast (a_param_type a)]
            @ take (unat n * unat (a_item_count a)) (a_data a))
          @ drop (4 + unat n * unat (a_item_count a)) (m_buf s),
       m_buf_index := 4 + ucast (n * a_item_count a)\<rparr>)"
proof -
  from l obtain b0 b1 b2 b3 r where b: "m_buf s = b0 # b1 # b2 # b3 # r"
    by (rule buf4)
  note v = verify_array_len_ok [OF t n c(1,2)]
  have e: "param_emit (a_param_type a) (a_data a) (n * a_item_count a)
       (buf_push 6 (buf_push 5 (s\<lparr>m_buf_index := 1\<rparr>)))
    = Inr (LYS_ERROR_SUCCESS, (buf_push 6 (buf_push 5 (s\<lparr>m_buf_index := 1\<rparr>)))
        \<lparr>m_buf := take (3 + 1) ((m_buf (buf_push 6 (buf_push 5 (s\<lparr>m_buf_index := 1\<rparr>))))
               [3 := ucast (a_param_type a)])
             @ take (unat (n * a_item_count a)) (a_data a)
             @ drop (3 + 1 + unat (n * a_item_count a))
                 (m_buf (buf_push 6 (buf_push 5 (s\<lparr>m_buf_index := 1\<rparr>)))),
          m_buf_index := m_buf_index (buf_push 6 (buf_push 5 (s\<lparr>m_buf_index := 1\<rparr>)))
             + 1 + ucast (n * a_item_count a)\<rparr>)"
    using l c v by (intro param_emit_eq) auto
  show ?thesis
    using d k
    by (simp add: msg_create_def param_add_def lookup_simps v e)
      (simp add: buf_push_def b v)
qed

lemma of_nat_3_plus: "unat n \<le> 61 \<Longrightarrow> (of_nat (3 + unat n) :: u8) = 3 + ucast (n :: u32)"
  by (rule word_unat_eq_iff [THEN iffD2]) (simp add: unat_of_nat unat_add8 unat_ucast_32_8)

lemma of_nat_4_plus: "unat n \<le> 60 \<Longrightarrow> (of_nat (4 + unat n) :: u8) = 4 + ucast (n :: u32)"
  by (rule word_unat_eq_iff [THEN iffD2]) (simp add: unat_of_nat unat_add8 unat_ucast_32_8)

lemma msg_create_wire:
  assumes "wire_value v"
  obtains X where
    "\<forall>t. length (m_buf t) = 64 \<longrightarrow>
       msg_create LYS_OP_PARAM (Some v) t = Inr (LYS_ERROR_SUCCESS,
         t\<lparr>m_buf := X @ drop (length X) (m_buf t), m_buf_index := of_nat (length X)\<rparr>)"
    and "3 \<le> length X" and "length X \<le> 64"
proof (cases "data v")
  case NULL
  with assms show ?thesis
    by (simp add: wire_value_def param_value_def)
next
  case (P_uint8 bs)
  with assms obtain n where k: "lys_param_len_lookup (param_type v) = Inr n"
    and n: "n \<noteq> 0" "unat n \<le> length bs"
    by (auto simp: wire_value_def param_value_def split: sum.splits if_splits)
  from lookup_cases [OF k] n(1) have n4: "n = 4 \<or> n = 1"
    by auto
  let ?X = "[3 + ucast n, 5, ucast (param_type v)] @ take (unat n) bs"
  have lx: "length ?X = 3 + unat n"
    using n(2) by simp
  have ix: "(of_nat (3 + unat n) :: u8) = 3 + ucast n"
    using n4 by (intro of_nat_3_plus) auto
  show ?thesis
  proof (rule that [of ?X])
    show "\<forall>t. length (m_buf t) = 64 \<longrightarrow>
       msg_create LYS_OP_PARAM (Some v) t = Inr (LYS_ERROR_SUCCESS,
         t\<lparr>m_buf := ?X @ drop (length ?X) (m_buf t), m_buf_index := of_nat (length ?X)\<rparr>)"
      unfolding lx ix using msg_create_scalar_eq [OF _ P_uint8 k n] by blast
  next
    show "3 \<le> length ?X" unfolding lx by simp
    show "length ?X \<le> 64" unfolding lx using n4 by auto
  qed
next
  case (P_str str)
  with assms have k: "param_type v = LYS_PARAM_TYPE_STRING"
    and n: "len str \<noteq> 0" "unat (len str) \<le> 61" "unat (len str) \<le> length (p_data str)"
    by (auto simp: wire_value_def param_value_def min_def split: if_splits)
  let ?X = "[3 + ucast (len str), 5, 5] @ take (unat (len str)) (p_data str)"
  have lx: "length ?X = 3 + unat (len str)"
    using n(3) by simp
  have ix: "(of_nat (3 + unat (len str)) :: u8) = 3 + ucast (len str)"
    using n(2) by (rule of_nat_3_plus)
  show ?thesis
  proof (rule that [of ?X])
    show "\<forall>t. length (m_buf t) = 64 \<longrightarrow>
       msg_create LYS_OP_PARAM (Some v) t = Inr (LYS_ERROR_SUCCESS,
         t\<lparr>m_buf := ?X @ drop (length ?X) (m_buf t), m_buf_index := of_nat (length ?X)\<rparr>)"
      unfolding lx ix using msg_create_str_eq [OF _ P_str k n] by blast
  next
    show "3 \<le> length ?X" unfolding lx by simp
    show "length ?X \<le> 64" unfolding lx using n(2) by simp
  qed
next
  case (P_array a)
  with assms obtain n where k: "param_type v = LYS_PARAM_TYPE_ARRAY"
    and t: "lys_param_len_lookup (a_param_type a) = Inr n" and n: "n \<noteq> 0"
    and c: "a_item_count a \<noteq> 0" "unat n * unat (a_item_count a) \<le> 60"
      "unat n * unat (a_item_count a) \<le> length (a_data a)"
    by (auto simp: wire_value_def param_value_def min_def split: sum.splits if_splits)
  note v = verify_array_len_ok [OF t n c(1,2), THEN conjunct2]
  let ?X = "[4 + ucast (n * a_item_count a), 5, 6, ucast (a_param_type a)]
            @ take (unat n * unat (a_item_count a)) (a_data a)"
  have lx: "length ?X = 4 + unat n * unat (a_item_count a)"
    using c(3) by simp
  have ix: "(of_nat (4 + unat n * unat (a_item_count a)) :: u8) = 4 + ucast (n * a_item_count a)"
    using of_nat_4_plus [of "n * a_item_count a"] c(2) v by simp
  show ?thesis
  proof (rule that [of ?X])
    show "\<forall>t. length (m_buf t) = 64 \<longrightarrow>
       msg_create LYS_OP_PARAM (Some v) t = Inr (LYS_ERROR_SUCCESS,
         t\<lparr>m_buf := ?X @ drop (length ?X) (m_buf t), m_buf_index := of_nat (length ?X)\<rparr>)"
      unfolding lx ix using msg_create_array_eq [OF _ P_array k t n c] by blast
  next
    show "3 \<le> length ?X" unfolding lx by simp
    show "length ?X \<le> 64" unfolding lx using c(2) by simp
  qed
qed

lemma param_frame_eq:
  assumes "wire_value v" and "length (m_buf s) = 64"
  shows "msg_create LYS_OP_PARAM (Some v) s = Inr (LYS_ERROR_SUCCESS,
       s\<lparr>m_buf := param_frame v @ drop (length (param_frame v)) (m_buf s),
         m_buf_index := of_nat (length (param_frame v))\<rparr>)
     \<and> 3 \<le> length (param_frame v) \<and> length (param_frame v) \<le> 64
     \<and> unat (hd (param_frame v)) = length (param_frame v)"
proof -
  from assms(1) obtain X where x0: "\<forall>t. length (m_buf t) = 64 \<longrightarrow>
       msg_create LYS_OP_PARAM (Some v) t = Inr (LYS_ERROR_SUCCESS,
         t\<lparr>m_buf := X @ drop (length X) (m_buf t), m_buf_index := of_nat (length X)\<rparr>)"
    and l: "3 \<le> length X" "length X \<le> 64"
    by (rule msg_create_wire)
  from x0 have x: "msg_create LYS_OP_PARAM (Some v) t = Inr (LYS_ERROR_SUCCESS,
         t\<lparr>m_buf := X @ drop (length X) (m_buf t), m_buf_index := of_nat (length X)\<rparr>)"
    if "length (m_buf t) = 64" for t
    using that by blast
  have u: "unat (of_nat (length X) :: u8) = length X"
    using l by (simp add: unat_of_nat)
  have b: "length (m_buf (lys_boot [] [])) = 64"
    by (simp add: lys_boot_def)
  have f: "param_frame v = X"
    by (simp add: param_frame_def x [OF b] frame_def u)
  from msg_create_frame [OF x [OF assms(2)] assms(2)] l
  have "hd X = of_nat (length X)"
    by (cases X) auto
  with u have "unat (hd X) = length X"
    by simp
  with x [OF assms(2)] l show ?thesis
    by (simp add: f)
qed

lemma roundtrip_wire:
  assumes "wire_value v" and "length (m_buf s) = 64"
  shows "roundtrip s v"
proof (cases "data v")
  case NULL
  with assms(1) show ?thesis
    by (simp add: wire_value_def param_value_def)
next
  case (P_uint8 bs)
  with assms(1) show ?thesis
    by (auto simp: wire_value_def param_value_def split: sum.splits if_splits
        intro: roundtrip_scalar [OF assms(2)])
next
  case (P_str str)
  with assms(1) have "param_type v = LYS_PARAM_TYPE_STRING" "len str \<noteq> 0"
    "unat (len str) \<le> 61" "unat (len str) \<le> length (p_data str)"
    by (auto simp: wire_value_def param_value_def min_def split: if_splits)
  with P_str show ?thesis
    by (intro roundtrip_str [OF assms(2)])
next
  case (P_array a)
  with assms(1) obtain n where "param_type v = LYS_PARAM_TYPE_ARRAY"
    "lys_param_len_lookup (a_param_type a) = Inr n" "n \<noteq> 0" "a_item_count a \<noteq> 0"
    "unat n * unat (a_item_count a) \<le> 60" "unat n * unat (a_item_count a) \<le> length (a_data a)"
    by (auto simp: wire_value_def param_value_def min_def split: sum.splits if_splits)
  with P_array show ?thesis
    by (intro roundtrip_array [OF assms(2)])
qed

lemma param_value_type:
  assumes "param_value r = param_value v" and "param_value v = Some x"
  shows "param_type r = param_type v"
proof -
  have t: "param_type p = (case y of V_scalar t bs \<Rightarrow> t | V_str bs \<Rightarrow> LYS_PARAM_TYPE_STRING
      | V_array t n bs \<Rightarrow> LYS_PARAM_TYPE_ARRAY)"
    if "param_value p = Some y" for p y
    using that
    by (auto simp: param_value_def split: lys_ptr.splits sum.splits if_splits)
  from t [of v x] t [of r x] assms show ?thesis
    by simp
qed

lemma init_begin_waiting:
  "m_state s = LYS_STATE_WAIT_FOR_START \<Longrightarrow> init_begin s = Inr (LYS_ERROR_SUCCESS, s)"
  by (simp add: init_begin_def)

lemma lys_param_wait_param:
  assumes w: "wire_value v" and st: "m_state s = LYS_STATE_WAIT_FOR_START"
    and l: "length (m_buf s) = 64"
    and d: "delivers (rtt_down s) (param_frame v) = Some down'"
    and a: "accepts (rtt_accept s) 2 = Some acc'"
  shows "\<exists>r s1. lys_param_wait s = Inr (LYS_ERROR_SUCCESS, Some r, True, s1)
     \<and> param_value r = param_value v \<and> param_type r = param_type v
     \<and> m_state s1 = LYS_STATE_WAIT_FOR_START \<and> m_error s1 = m_error s
     \<and> length (m_buf s1) = 64 \<and> rtt_down s1 = down' \<and> rtt_accept s1 = acc'
     \<and> rtt_up s1 = rtt_up s @ m_ack_buf"
proof -
  let ?f = "param_frame v"
  let ?sX = "s\<lparr>rtt_down := down'\<rparr>"
  let ?sR = "s\<lparr>m_buf := ?f @ drop (length ?f) (m_buf s), m_buf_index := of_nat (length ?f),
               rtt_down := down'\<rparr>"
  have lX: "length (m_buf ?sX) = 64"
    using l by simp
  note f = param_frame_eq [OF w lX]
  from f have c: "msg_create LYS_OP_PARAM (Some v) ?sX = Inr (LYS_ERROR_SUCCESS, ?sR)"
    by simp
  from f have ne: "?f \<noteq> []" and le: "length ?f \<le> 64" and hd: "unat (hd ?f) = length ?f"
    by auto
  have rc: "msg_receive s = msg_parse ?sR"
    using d ne l le hd by (rule msg_receive_delivers)
  have rt: "case msg_parse ?sR of
      Inr (LYS_ERROR_SUCCESS, op, Some r, s2) \<Rightarrow>
        op = LYS_OP_PARAM \<and> param_value r = param_value v
    | _ \<Rightarrow> False"
    using roundtrip_wire [OF w lX] by (simp add: roundtrip_def c)
  have "\<exists>r s2. msg_parse ?sR = Inr (LYS_ERROR_SUCCESS, LYS_OP_PARAM, Some r, s2)
      \<and> param_value r = param_value v"
  proof (cases "msg_parse ?sR")
    case (Inl f)
    with rt show ?thesis
      by simp
  next
    case (Inr x)
    obtain err op po s2 where "x = (err, op, po, s2)"
      by (cases x)
    with Inr rt show ?thesis
      by (cases err; cases po; simp)
  qed
  then obtain r s2
    where p: "msg_parse ?sR = Inr (LYS_ERROR_SUCCESS, LYS_OP_PARAM, Some r, s2)"
      and v: "param_value r = param_value v"
    by blast
  from w obtain x where "param_value v = Some x"
    by (auto simp: wire_value_def split: option.splits)
  with v have ty: "param_type r = param_type v"
    by (rule param_value_type)
  note k = msg_parse_keeps [OF p] msg_parse_buf [OF p] msg_parse_rtt [OF p]
  have a2: "accepts (rtt_accept s2) 2 = Some acc'"
    using a k by simp
  have ra: "msg_receive_and_ack s = Inr (LYS_ERROR_SUCCESS, LYS_OP_PARAM, Some r,
      s2\<lparr>rtt_up := rtt_up s2 @ m_ack_buf, rtt_accept := acc'\<rparr>)"
    by (simp add: msg_receive_and_ack_def rc p ack_msg_send_accepts [OF a2])
  have "lys_param_wait s = Inr (LYS_ERROR_SUCCESS, Some r, True,
      s2\<lparr>rtt_up := rtt_up s2 @ m_ack_buf, rtt_accept := acc'\<rparr>)"
    using st by (simp add: lys_param_wait_def init_begin_waiting ra)
  moreover have "length (m_buf s2) = 64"
    using k le l by simp
  ultimately show ?thesis
    using v ty k st by simp
qed

lemma lys_param_wait_start:
  assumes st: "m_state s = LYS_STATE_WAIT_FOR_START" and l: "length (m_buf s) = 64"
    and d: "delivers (rtt_down s) [2, 2] = Some down'"
    and a: "accepts (rtt_accept s) 2 = Some acc'"
  shows "lys_param_wait s = Inr (LYS_ERROR_SUCCESS, None, False,
     s\<lparr>m_buf := [2, 2] @ drop 2 (m_buf s), m_buf_index := 2, rtt_down := down',
       rtt_up := rtt_up s @ m_ack_buf, rtt_accept := acc', m_state := LYS_STATE_RUNNING\<rparr>)"
proof -
  have "msg_receive s = msg_parse
     (s\<lparr>m_buf := [2, 2] @ drop (length [2 :: u8, 2]) (m_buf s),
        m_buf_index := of_nat (length [2 :: u8, 2]), rtt_down := down'\<rparr>)"
    using d l by (intro msg_receive_delivers) simp_all
  moreover have "length [2 :: u8, 2] = 2"
    by simp
  ultimately have rc: "msg_receive s = msg_parse
     (s\<lparr>m_buf := [2, 2] @ drop 2 (m_buf s), m_buf_index := 2, rtt_down := down'\<rparr>)"
    by (simp only: of_nat_numeral)
  have ra: "msg_receive_and_ack s = Inr (LYS_ERROR_SUCCESS, LYS_OP_START, None,
      s\<lparr>m_buf := [2, 2] @ drop 2 (m_buf s), m_buf_index := 2, rtt_down := down',
        rtt_up := rtt_up s @ m_ack_buf, rtt_accept := acc'\<rparr>)"
    using a by (simp add: msg_receive_and_ack_def rc msg_parse_def ack_msg_send_accepts)
  show ?thesis
    using st by (simp add: lys_param_wait_def init_begin_waiting ra)
qed

lemma param_store_fits:
  assumes f: "fits p v" and v: "param_value r = param_value v"
  shows "\<exists>p'. param_store p r = Inr (LYS_ERROR_SUCCESS, p')"
proof -
  from f obtain x where x: "param_value v = Some x"
    by (auto simp: fits_def split: option.splits)
  with v have rx: "param_value r = Some x"
    by simp
  from v x have ty: "param_type r = param_type v"
    by (rule param_value_type)
  with f have tp: "param_type p = param_type r"
    by (simp add: fits_def)
  show ?thesis
  proof (cases x)
    case (V_scalar t bs)
    with f x obtain dst where dst: "data p = P_uint8 dst" "length bs \<le> length dst"
      by (auto simp: fits_def split: lys_ptr.splits)
    from rx V_scalar obtain src n where src: "data r = P_uint8 src"
        "lys_param_len_lookup (param_type r) = Inr n" "n \<noteq> 0" "unat n \<le> length src"
        "bs = take (unat n) src"
      by (auto simp: param_value_def split: lys_ptr.splits sum.splits if_splits)
    from lookup_cases [OF src(2)] src(3) have "param_type r = 0 \<or> param_type r = 1
        \<or> param_type r = 2 \<or> param_type r = 3 \<or> param_type r = 4"
      by auto
    moreover have "unat n \<le> length dst"
      using dst(2) src(4,5) by simp
    ultimately show ?thesis
      using dst src tp by (auto simp: param_store_def memcpy_def)
  next
    case (V_str bs)
    with f x obtain dst where dst: "data p = P_str dst" "length bs \<le> length (p_data dst)"
        "1 \<le> length bs" "length bs \<le> 61"
      by (auto simp: fits_def wire_value_def split: lys_ptr.splits)
    from rx V_str obtain src where src: "data r = P_str src"
        "param_type r = LYS_PARAM_TYPE_STRING" "unat (len src) \<le> length (p_data src)"
        "bs = take (unat (len src)) (p_data src)"
      by (auto simp: param_value_def split: lys_ptr.splits sum.splits if_splits)
    have n: "length bs = unat (len src)"
      using src(3,4) by simp
    have "len src \<noteq> 0"
      using dst(3) n by auto
    moreover have "\<not> len src > 64"
      using dst(4) n by (simp add: word_less_nat_alt)
    ultimately show ?thesis
      using dst src tp n by (auto simp: param_store_def str_copy_def memcpy_def)
  next
    case (V_array t n bs)
    with f x obtain dst where dst: "data p = P_array dst" "length bs \<le> length (a_data dst)"
        "length bs \<le> 60"
      by (auto simp: fits_def wire_value_def split: lys_ptr.splits)
    from rx V_array obtain src sz where src: "data r = P_array src"
        "param_type r = LYS_PARAM_TYPE_ARRAY" "lys_param_len_lookup (a_param_type src) = Inr sz"
        "sz \<noteq> 0" "unat sz * unat (a_item_count src) \<le> length (a_data src)"
        "bs = take (unat sz * unat (a_item_count src)) (a_data src)"
      by (auto simp: param_value_def split: lys_ptr.splits sum.splits if_splits)
    have n: "length bs = unat sz * unat (a_item_count src)"
      using src(5,6) by simp
    have m: "unat (sz * a_item_count src) = unat sz * unat (a_item_count src)"
      using dst(3) n by (intro unat_mult_lem [THEN iffD1]) simp
    have "\<not> sz * a_item_count src > 64"
      using dst(3) n m by (simp add: word_less_nat_alt)
    then show ?thesis
      using dst src tp n m by (auto simp: param_store_def array_copy_def memcpy_def Let_def)
  qed
qed

lemma lys_params_receive_serves:
  assumes "list_all2 fits ps vs" and "m_state s = LYS_STATE_WAIT_FOR_START"
    and "length (m_buf s) = 64"
    and "serves (map param_frame vs @ [f]) (rtt_down s) (rtt_accept s) = Some e"
  shows "(wire_value x \<and> f = param_frame x \<longrightarrow>
           (\<exists>ps' s'. lys_params_receive ps s = Inr (LYS_ERROR_INVALID_STATE, ps', s')
              \<and> m_state s' = LYS_STATE_UNKNOWN \<and> m_error s'))
       \<and> (f = [2, 2] \<longrightarrow>
           (\<exists>ps' s'. lys_params_receive ps s = Inr (LYS_ERROR_SUCCESS, ps', s')
              \<and> m_state s' = LYS_STATE_RUNNING \<and> m_error s' = m_error s))"
  using assms
proof (induction ps vs arbitrary: s rule: list_all2_induct)
  case Nil
  from Nil(3) obtain down' acc' where d: "delivers (rtt_down s) f = Some down'"
      and a: "accepts (rtt_accept s) 2 = Some acc'"
    by (auto split: option.splits)
  have "\<exists>ps' s'. lys_params_receive [] s = Inr (LYS_ERROR_INVALID_STATE, ps', s')
      \<and> m_state s' = LYS_STATE_UNKNOWN \<and> m_error s'"
    if "wire_value x" "f = param_frame x"
  proof -
    from lys_param_wait_param [OF that(1) Nil(1,2) d [unfolded that(2)] a]
    obtain r s1 where "lys_param_wait s = Inr (LYS_ERROR_SUCCESS, Some r, True, s1)"
      by blast
    then show ?thesis
      by (simp add: error_def)
  qed
  moreover have "\<exists>ps' s'. lys_params_receive [] s = Inr (LYS_ERROR_SUCCESS, ps', s')
      \<and> m_state s' = LYS_STATE_RUNNING \<and> m_error s' = m_error s"
    if "f = [2, 2]"
    using lys_param_wait_start [OF Nil(1,2) d [unfolded that] a] by simp
  ultimately show ?case
    by blast
next
  case (Cons p ps v vs)
  from Cons.prems(3) obtain down' acc' where d: "delivers (rtt_down s) (param_frame v) = Some down'"
      and a: "accepts (rtt_accept s) 2 = Some acc'"
      and r: "serves (map param_frame vs @ [f]) down' acc' = Some e"
    by (auto split: option.splits)
  from Cons.hyps(1) have w: "wire_value v" and t: "param_type p = param_type v"
    by (simp_all add: fits_def)
  from lys_param_wait_param [OF w Cons.prems(1,2) d a]
  obtain r s1 where pw: "lys_param_wait s = Inr (LYS_ERROR_SUCCESS, Some r, True, s1)"
      and rv: "param_value r = param_value v" and rt: "param_type r = param_type v"
      and s1: "m_state s1 = LYS_STATE_WAIT_FOR_START" "m_error s1 = m_error s"
        "length (m_buf s1) = 64" "rtt_down s1 = down'" "rtt_accept s1 = acc'"
    by blast
  from param_store_fits [OF Cons.hyps(1) rv] obtain p'
    where st: "param_store p r = Inr (LYS_ERROR_SUCCESS, p')"
    by blast
  have r1: "serves (map param_frame vs @ [f]) (rtt_down s1) (rtt_accept s1) = Some e"
    using r s1 by simp
  note ih = Cons.IH [OF s1(1) s1(3) r1]
  have "\<exists>ps' s'. lys_params_receive (p # ps) s = Inr (LYS_ERROR_INVALID_STATE, ps', s')
      \<and> m_state s' = LYS_STATE_UNKNOWN \<and> m_error s'"
    if "wire_value x" "f = param_frame x"
  proof -
    from ih that obtain ps' s' where "lys_params_receive ps s1 = Inr (LYS_ERROR_INVALID_STATE, ps', s')"
        "m_state s' = LYS_STATE_UNKNOWN" "m_error s'"
      by blast
    then show ?thesis
      by (simp add: pw t rt st)
  qed
  moreover have "\<exists>ps' s'. lys_params_receive (p # ps) s = Inr (LYS_ERROR_SUCCESS, ps', s')
      \<and> m_state s' = LYS_STATE_RUNNING \<and> m_error s' = m_error s"
    if "f = [2, 2]"
  proof -
    from ih that obtain ps' s' where "lys_params_receive ps s1 = Inr (LYS_ERROR_SUCCESS, ps', s')"
        "m_state s' = LYS_STATE_RUNNING" "m_error s' = m_error s1"
      by blast
    then show ?thesis
      by (simp add: pw t rt st s1)
  qed
  ultimately show ?case
    by blast
qed

lemma lys_params_receive_begin:
  assumes "init_begin s = Inr (LYS_ERROR_SUCCESS, s0)" and "m_state s0 = LYS_STATE_WAIT_FOR_START"
  shows "lys_params_receive ps s = lys_params_receive ps s0"
proof -
  have "lys_param_wait s = lys_param_wait s0"
    using assms by (simp add: lys_param_wait_def init_begin_waiting)
  then show ?thesis
    by (cases ps) simp_all
qed

text \<open>
  C8. \<^verbatim>\<open>lys_params_receive\<close> is called with an expected list \<open>ps\<close> of any length on an
  engine that is, once the first block of \<^verbatim>\<open>lys_param_wait\<close> has run (the \<^verbatim>\<open>LYS_OP_INIT\<close>
  handshake when the state was \<^verbatim>\<open>LYS_STATE_UNKNOWN\<close>), in \<^verbatim>\<open>LYS_STATE_WAIT_FOR_START\<close>. The
  host delivers, in any chunking, one \<^verbatim>\<open>LYS_OP_PARAM\<close> frame for each expected entry,
  carrying a value \<open>vs\<close> of the entry's tag that the entry's storage takes, and the
  transport takes each ACK. If a further \<^verbatim>\<open>LYS_OP_PARAM\<close> frame follows, the call returns
  \<^verbatim>\<open>LYS_ERROR_INVALID_STATE\<close> with the state \<^verbatim>\<open>LYS_STATE_UNKNOWN\<close> and \<^verbatim>\<open>m_error\<close> set; if the
  \<^verbatim>\<open>LYS_OP_START\<close> frame \<open>[2, 2]\<close> follows, it returns \<^verbatim>\<open>LYS_ERROR_SUCCESS\<close> with the state
  \<^verbatim>\<open>LYS_STATE_RUNNING\<close> and \<^verbatim>\<open>m_error\<close> as it was.
\<close>

theorem params_receive_extra_param_or_start:
  assumes "length (m_buf s) = 64"
    and "init_begin s = Inr (LYS_ERROR_SUCCESS, s0)"
    and "m_state s0 = LYS_STATE_WAIT_FOR_START"
    and "list_all2 fits ps vs"
  shows "(wire_value x
          \<and> serves (map param_frame vs @ [param_frame x]) (rtt_down s0) (rtt_accept s0) \<noteq> None \<longrightarrow>
           (\<exists>ps' s'. lys_params_receive ps s = Inr (LYS_ERROR_INVALID_STATE, ps', s')
              \<and> m_state s' = LYS_STATE_UNKNOWN \<and> m_error s'))
       \<and> (serves (map param_frame vs @ [[2, 2]]) (rtt_down s0) (rtt_accept s0) \<noteq> None \<longrightarrow>
           (\<exists>ps' s'. lys_params_receive ps s = Inr (LYS_ERROR_SUCCESS, ps', s')
              \<and> m_state s' = LYS_STATE_RUNNING \<and> m_error s' = m_error s0))"
proof -
  have l: "length (m_buf s0) = 64"
    using init_begin_length [OF assms(2)] assms(1) by simp
  note b = lys_params_receive_begin [OF assms(2,3)]
  have "\<exists>ps' s'. lys_params_receive ps s = Inr (LYS_ERROR_INVALID_STATE, ps', s')
      \<and> m_state s' = LYS_STATE_UNKNOWN \<and> m_error s'"
    if "wire_value x"
      "serves (map param_frame vs @ [param_frame x]) (rtt_down s0) (rtt_accept s0) = Some e" for e
    using lys_params_receive_serves [OF assms(4,3) l that(2), of x] that(1) b by simp
  moreover have "\<exists>ps' s'. lys_params_receive ps s = Inr (LYS_ERROR_SUCCESS, ps', s')
      \<and> m_state s' = LYS_STATE_RUNNING \<and> m_error s' = m_error s0"
    if "serves (map param_frame vs @ [[2, 2]]) (rtt_down s0) (rtt_accept s0) = Some e" for e
    using lys_params_receive_serves [OF assms(4,3) l that, of x] b by simp
  ultimately show ?thesis
    by blast
qed

theorem params_receive_extra_param_or_start_witness:
  "wire_value \<lparr>param_type = LYS_PARAM_TYPE_UINT8, data = P_uint8 [7]\<rparr>
   \<and> list_all2 fits [\<lparr>param_type = LYS_PARAM_TYPE_UINT32, data = P_uint8 [0, 0, 0, 0]\<rparr>]
        [\<lparr>param_type = LYS_PARAM_TYPE_UINT32, data = P_uint8 [42, 0, 0, 0]\<rparr>]
   \<and> map param_frame [\<lparr>param_type = LYS_PARAM_TYPE_UINT32, data = P_uint8 [42, 0, 0, 0]\<rparr>]
        @ [param_frame \<lparr>param_type = LYS_PARAM_TYPE_UINT8, data = P_uint8 [7]\<rparr>]
      = [[7, 5, 0, 42, 0, 0, 0], [4, 5, 2, 7]]
   \<and> init_begin (lys_init (lys_boot [2, 2, 2] [[2, 6], [7, 5, 0, 42], [0, 0, 0], [4, 5, 2, 7]]))
      = Inr (LYS_ERROR_SUCCESS, (lys_boot [2, 2] [[7, 5, 0, 42], [0, 0, 0], [4, 5, 2, 7]])
          \<lparr>m_buf := [2, 6, 0, 0, 0, 0, 0, 0] @ replicate 56 0, m_buf_index := 2,
           m_state := LYS_STATE_WAIT_FOR_START, rtt_up := [2, 1]\<rparr>)
   \<and> serves [[7, 5, 0, 42, 0, 0, 0], [4, 5, 2, 7]]
        [[7, 5, 0, 42], [0, 0, 0], [4, 5, 2, 7]] [2, 2] = Some ([], [])
   \<and> (\<exists>ps' s'. lys_params_receive [\<lparr>param_type = LYS_PARAM_TYPE_UINT32, data = P_uint8 [0, 0, 0, 0]\<rparr>]
         (lys_init (lys_boot [2, 2, 2] [[2, 6], [7, 5, 0, 42], [0, 0, 0], [4, 5, 2, 7]]))
        = Inr (LYS_ERROR_INVALID_STATE, ps', s')
      \<and> m_state s' = LYS_STATE_UNKNOWN \<and> m_error s')
   \<and> init_begin (lys_init (lys_boot [2, 2, 2] [[2, 6], [7, 5, 0, 42], [0, 0, 0], [2, 2]]))
      = Inr (LYS_ERROR_SUCCESS, (lys_boot [2, 2] [[7, 5, 0, 42], [0, 0, 0], [2, 2]])
          \<lparr>m_buf := [2, 6, 0, 0, 0, 0, 0, 0] @ replicate 56 0, m_buf_index := 2,
           m_state := LYS_STATE_WAIT_FOR_START, rtt_up := [2, 1]\<rparr>)
   \<and> serves [[7, 5, 0, 42, 0, 0, 0], [2, 2]] [[7, 5, 0, 42], [0, 0, 0], [2, 2]] [2, 2] = Some ([], [])
   \<and> (\<exists>ps' s'. lys_params_receive [\<lparr>param_type = LYS_PARAM_TYPE_UINT32, data = P_uint8 [0, 0, 0, 0]\<rparr>]
         (lys_init (lys_boot [2, 2, 2] [[2, 6], [7, 5, 0, 42], [0, 0, 0], [2, 2]]))
        = Inr (LYS_ERROR_SUCCESS, ps', s')
      \<and> m_state s' = LYS_STATE_RUNNING \<and> \<not> m_error s')"
proof -
  let ?p = "\<lparr>param_type = LYS_PARAM_TYPE_UINT32, data = P_uint8 [0, 0, 0, 0]\<rparr>"
  let ?v = "\<lparr>param_type = LYS_PARAM_TYPE_UINT32, data = P_uint8 [42, 0, 0, 0]\<rparr>"
  let ?x = "\<lparr>param_type = LYS_PARAM_TYPE_UINT8, data = P_uint8 [7]\<rparr>"
  let ?sP = "lys_init (lys_boot [2, 2, 2] [[2, 6], [7, 5, 0, 42], [0, 0, 0], [4, 5, 2, 7]])"
  let ?tP = "(lys_boot [2, 2] [[7, 5, 0, 42], [0, 0, 0], [4, 5, 2, 7]])
          \<lparr>m_buf := [2, 6, 0, 0, 0, 0, 0, 0] @ replicate 56 0, m_buf_index := 2,
           m_state := LYS_STATE_WAIT_FOR_START, rtt_up := [2, 1]\<rparr>"
  let ?sS = "lys_init (lys_boot [2, 2, 2] [[2, 6], [7, 5, 0, 42], [0, 0, 0], [2, 2]])"
  let ?tS = "(lys_boot [2, 2] [[7, 5, 0, 42], [0, 0, 0], [2, 2]])
          \<lparr>m_buf := [2, 6, 0, 0, 0, 0, 0, 0] @ replicate 56 0, m_buf_index := 2,
           m_state := LYS_STATE_WAIT_FOR_START, rtt_up := [2, 1]\<rparr>"
  have w: "wire_value ?x"
    by (simp add: wire_value_def param_value_def lookup_simps)
  have f: "list_all2 fits [?p] [?v]"
    by (simp add: fits_def wire_value_def param_value_def lookup_simps)
  have fr: "map param_frame [?v] @ [param_frame ?x] = [[7, 5, 0, 42, 0, 0, 0], [4, 5, 2, 7]]"
    by (simp add: param_frame_def lys_eval buf64 frame_def)
  have lP: "length (m_buf ?sP) = 64" and lS: "length (m_buf ?sS) = 64"
    by (simp_all add: lys_init_def lys_boot_def)
  have iP: "init_begin ?sP = Inr (LYS_ERROR_SUCCESS, ?tP)"
    by (simp add: lys_eval buf64)
  have iS: "init_begin ?sS = Inr (LYS_ERROR_SUCCESS, ?tS)"
    by (simp add: lys_eval buf64)
  have st: "m_state ?tP = LYS_STATE_WAIT_FOR_START" "m_state ?tS = LYS_STATE_WAIT_FOR_START"
    by simp_all
  have rt: "rtt_down ?tP = [[7, 5, 0, 42], [0, 0, 0], [4, 5, 2, 7]]" "rtt_accept ?tP = [2, 2]"
    "rtt_down ?tS = [[7, 5, 0, 42], [0, 0, 0], [2, 2]]" "rtt_accept ?tS = [2, 2]"
    "m_error ?tS = False"
    by (simp_all add: lys_boot_def)
  have sv: "serves [[7, 5, 0, 42, 0, 0, 0], [4, 5, 2, 7]]
        [[7, 5, 0, 42], [0, 0, 0], [4, 5, 2, 7]] [2, 2] = Some ([], [])"
    "serves [[7, 5, 0, 42, 0, 0, 0], [2, 2]] [[7, 5, 0, 42], [0, 0, 0], [2, 2]] [2, 2] = Some ([], [])"
    by (simp_all add: numeral_2_eq_2)
  have fS: "map param_frame [?v] @ [[2, 2]] = [[7, 5, 0, 42, 0, 0, 0], [2, 2]]"
    using fr by simp
  from params_receive_extra_param_or_start [OF lP iP st(1) f, of ?x] w
  have "\<exists>ps' s'. lys_params_receive [?p] ?sP = Inr (LYS_ERROR_INVALID_STATE, ps', s')
      \<and> m_state s' = LYS_STATE_UNKNOWN \<and> m_error s'"
    unfolding fr rt sv by simp
  moreover from params_receive_extra_param_or_start [OF lS iS st(2) f, of ?x]
  have "\<exists>ps' s'. lys_params_receive [?p] ?sS = Inr (LYS_ERROR_SUCCESS, ps', s')
      \<and> m_state s' = LYS_STATE_RUNNING \<and> \<not> m_error s'"
    unfolding fS rt sv by simp
  ultimately show ?thesis
    using w f fr iP iS sv by blast
qed

end
